theory Spec2Isabelle
  imports Main "HOL-Library.AList"
begin

section \<open>The cache of gocache.go\<close>

text \<open>
  The development follows \<^verbatim>\<open>gocache.go\<close>. Every method is a function from the cache
  before the call to the cache after it, and a section the source guards with
  \<^verbatim>\<open>c.lock\<close> or \<^verbatim>\<open>c.g.mu\<close> is run as a whole. A method that gives up its lock and
  goes on (\<^verbatim>\<open>Get\<close>, \<^verbatim>\<open>getData\<close>) takes, for each such point, the list of what the other
  goroutines do there: the refresh goroutines of \<^verbatim>\<open>upValue\<close> and the loads of other
  callers. With empty lists the call runs alone.

  \<^item> \<^verbatim>\<open>interface{}\<close> values are \<open>'v option\<close>, \<open>None\<close> being \<^verbatim>\<open>nil\<close>; keys are
    a type \<open>'k\<close> with HOL equality (the comparable keys a Go map accepts).
  \<^item> \<^verbatim>\<open>time.Time\<close> and \<^verbatim>\<open>time.Duration\<close> are integers counting nanoseconds;
    every \<^verbatim>\<open>time.Now()\<close> a method reads is an argument of its model.
  \<^item> A \<^verbatim>\<open>*list.Element\<close> is an address; \<open>heap\<close> gives the \<^verbatim>\<open>*Value\<close> an element
    holds, so the map \<open>data\<close> and the list \<open>lru\<close> share the elements as in the source.
    A \<^verbatim>\<open>*call\<close> is an address as well, \<open>calls\<close> giving the \<^verbatim>\<open>call\<close> it points to.
  \<^item> A Go map is an association list read with \<open>map_of\<close>, written with
    \<open>AList.update\<close> and \<open>AList.delete\<close>.
\<close>

type_synonym elem = nat
type_synonym callref = nat
type_synonym time = int
type_synonym duration = int
type_synonym 'v iface = "'v option"

definition Second :: duration where
  "Second = 1000000000"

record ('k, 'v) Value =
  key :: 'k
  value' :: "'v iface"
  heartbeat :: time

text \<open>
  \<^verbatim>\<open>call\<close>, lines 13 to 17: \<open>wg\<close> is the counter of the \<^verbatim>\<open>sync.WaitGroup\<close>.
\<close>

record 'v call =
  wg :: nat
  val :: "'v iface"
  ret :: int

text \<open>
  The fields of \<^verbatim>\<open>Cache\<close>. \<open>g_m\<close> is \<^verbatim>\<open>c.g.m\<close>, \<open>None\<close> while the map is
  still \<^verbatim>\<open>nil\<close>. \<open>nextElem\<close> and \<open>nextCall\<close> are the allocator: the addresses the
  next \<^verbatim>\<open>PushFront\<close> and the next \<^verbatim>\<open>new(call)\<close> hand out. \<open>loads\<close> is not a field of
  the source: it counts the calls of the loader (lines 190 and 205), so that a
  statement can say how often the loader has run. \<^verbatim>\<open>interval\<close> and \<^verbatim>\<open>initUpStatus\<close>
  are read by no method modelled here.
\<close>

record ('k, 'v) Cache =
  heap :: "elem \<Rightarrow> ('k, 'v) Value"
  nextElem :: elem
  lru :: "elem list"
  data :: "('k \<times> elem) list"
  expire :: duration
  maxKeyCount :: int
  upfunc :: "('k \<Rightarrow> 'v iface \<times> int) option"
  g_m :: "('k \<times> callref) list option"
  calls :: "callref \<Rightarrow> 'v call"
  nextCall :: callref
  loads :: nat

text \<open>
  What stops a call: \<open>Blocks\<close>, it waits on a \<^verbatim>\<open>WaitGroup\<close> that nothing releases;
  \<open>NilFuncCall\<close> and \<open>NegativeCounter\<close>, the panics of calling a \<^verbatim>\<open>nil\<close> function and
  of \<^verbatim>\<open>Done\<close> on a counter that is 0; \<open>NotEnabled\<close>, a step asked of another goroutine
  that it cannot take in this state.
\<close>

datatype fault = Blocks | NilFuncCall | NegativeCounter | NotEnabled

subsection \<open>container/list\<close>

text \<open>The list front first. An element is in the list at most once.\<close>

definition PushFront :: "elem \<Rightarrow> elem list \<Rightarrow> elem list" where
  "PushFront e l = e # l"

definition MoveToFront :: "elem \<Rightarrow> elem list \<Rightarrow> elem list" where
  "MoveToFront e l = (if e \<in> set l then e # remove1 e l else l)"

definition Remove :: "elem \<Rightarrow> elem list \<Rightarrow> elem list" where
  "Remove e l = remove1 e l"

definition Back :: "elem list \<Rightarrow> elem option" where
  "Back l = (case l of [] \<Rightarrow> None | _ # _ \<Rightarrow> Some (last l))"

subsection \<open>Construction and configuration\<close>

text \<open>
  \<^verbatim>\<open>New\<close>, lines 48 to 55: an empty map, an empty list and every other field at its
  zero value. No element and no call has been allocated, so nothing is said of what
  \<open>heap\<close> and \<open>calls\<close> hold. \<^verbatim>\<open>Len\<close> is \<^verbatim>\<open>len(c.data)\<close>: the association list holds a key once (see
  the invariant below), so its length is the size of the map.
\<close>

definition New :: "('k, 'v) Cache" where
  "New = \<lparr> heap = undefined, nextElem = 0, lru = [], data = [],
           expire = 0, maxKeyCount = 0, upfunc = None, g_m = None,
           calls = undefined, nextCall = 0, loads = 0 \<rparr>"

definition SetExpire :: "duration \<Rightarrow> ('k, 'v) Cache \<Rightarrow> ('k, 'v) Cache" where
  "SetExpire e c = c\<lparr>expire := e\<rparr>"

definition SetMaxKeyCount :: "int \<Rightarrow> ('k, 'v) Cache \<Rightarrow> ('k, 'v) Cache" where
  "SetMaxKeyCount cnt c = c\<lparr>maxKeyCount := cnt\<rparr>"

definition SetUpFunc :: "('k \<Rightarrow> 'v iface \<times> int) \<Rightarrow> ('k, 'v) Cache \<Rightarrow> ('k, 'v) Cache" where
  "SetUpFunc f c = c\<lparr>upfunc := Some f\<rparr>"

definition Len :: "('k, 'v) Cache \<Rightarrow> nat" where
  "Len c = length (data c)"

subsection \<open>Put\<close>

text \<open>
  Lines 148 to 162: the write. An existing entry is updated in place and moved to the
  front; a new key gets a fresh element at the front and an entry in the map.
\<close>

definition Put_write :: "'k \<Rightarrow> 'v iface \<Rightarrow> time \<Rightarrow> ('k, 'v) Cache \<Rightarrow> ('k, 'v) Cache" where
  "Put_write k v now c =
     (case map_of (data c) k of
        Some e \<Rightarrow>
          c\<lparr> heap := (heap c)(e := (heap c e)\<lparr>value' := v, heartbeat := now\<rparr>),
             lru := MoveToFront e (lru c) \<rparr>
      | None \<Rightarrow>
          (let e = nextElem c in
           c\<lparr> heap := (heap c)(e := \<lparr>key = k, value' = v, heartbeat = now\<rparr>),
              nextElem := Suc e,
              lru := PushFront e (lru c),
              data := AList.update k e (data c) \<rparr>))"

text \<open>Lines 164 to 171: the eviction of the element at the back.\<close>

definition Put_evict :: "('k, 'v) Cache \<Rightarrow> ('k, 'v) Cache" where
  "Put_evict c =
     (if maxKeyCount c > 0 \<and> int (length (data c)) \<ge> maxKeyCount c then
        (case Back (lru c) of
           None \<Rightarrow> c
         | Some e \<Rightarrow>
             c\<lparr> lru := Remove e (lru c),
                data := AList.delete (key (heap c e)) (data c) \<rparr>)
      else c)"

definition Put :: "'k \<Rightarrow> 'v iface \<Rightarrow> time \<Rightarrow> ('k, 'v) Cache \<Rightarrow> ('k, 'v) Cache" where
  "Put k v now c = Put_evict (Put_write k v now c)"

subsection \<open>The refresh goroutine\<close>

text \<open>
  \<^verbatim>\<open>upValue\<close>, lines 203 to 210, starts a goroutine and returns: \<open>upValue\<close> is the
  list of keys whose refresh has been started, and \<open>upValue_go\<close> is the body of the
  goroutine, run at a time of its own: it calls the loader and writes the value with
  \<open>Put\<close> when the status is 0. Calling a \<^verbatim>\<open>nil\<close> loader panics. The loader is a
  function of the key.
\<close>

definition upValue :: "'k \<Rightarrow> 'k list" where
  "upValue k = [k]"

definition upValue_go :: "'k \<Rightarrow> time \<Rightarrow> ('k, 'v) Cache \<Rightarrow> fault + ('k, 'v) Cache" where
  "upValue_go k now c =
     (case upfunc c of
        None \<Rightarrow> Inl NilFuncCall
      | Some f \<Rightarrow>
          (let v = fst (f k); e = snd (f k); c1 = c\<lparr>loads := Suc (loads c)\<rparr>
           in Inr (if e = 0 then Put k v now c1 else c1)))"

subsection \<open>getData\<close>

text \<open>
  Lines 176 to 188, under \<^verbatim>\<open>c.g.mu\<close>: the map is made if it is \<^verbatim>\<open>nil\<close>; a call that
  finds a load of the key registered will wait for it (\<open>Waits\<close>), any other registers a
  new \<^verbatim>\<open>call\<close> with its counter at 1 and will load (\<open>Loads\<close>).
\<close>

datatype role = Waits callref | Loads callref

definition getData_enter :: "'k \<Rightarrow> ('k, 'v) Cache \<Rightarrow> role \<times> ('k, 'v) Cache" where
  "getData_enter k c =
     (let m0 = (case g_m c of None \<Rightarrow> [] | Some m1 \<Rightarrow> m1) in
      case map_of m0 k of
        Some key_call \<Rightarrow> (Waits key_call, c\<lparr>g_m := Some m0\<rparr>)
      | None \<Rightarrow>
          (let key_call = nextCall c in
           (Loads key_call,
            c\<lparr> calls := (calls c)(key_call := \<lparr>wg = 1, val = None, ret = 0\<rparr>),
               nextCall := Suc key_call,
               g_m := Some (AList.update k key_call m0) \<rparr>)))"

text \<open>
  Lines 190 to 199, the goroutine that has registered \<open>key_call\<close>: it calls the loader,
  records the pair in the call, writes the value with \<open>Put\<close> when the status is 0,
  releases the waiters (\<^verbatim>\<open>wg.Done()\<close>), removes the call from the map and returns the
  pair.
\<close>

definition getData_load ::
  "'k \<Rightarrow> callref \<Rightarrow> time \<Rightarrow> ('k, 'v) Cache
     \<Rightarrow> fault + (('v iface \<times> int) \<times> ('k, 'v) Cache)" where
  "getData_load k key_call now c =
     (case upfunc c of
        None \<Rightarrow> Inl NilFuncCall
      | Some f \<Rightarrow>
          (let c1 = c\<lparr> calls := (calls c)(key_call :=
                          (calls c key_call)\<lparr>val := fst (f k), ret := snd (f k)\<rparr>),
                        loads := Suc (loads c) \<rparr>;
               c2 = (if ret (calls c1 key_call) = 0
                     then Put k (val (calls c1 key_call)) now c1 else c1)
           in if wg (calls c2 key_call) = 0 then Inl NegativeCounter
              else
                (let c3 = c2\<lparr>calls := (calls c2)(key_call :=
                               (calls c2 key_call)\<lparr>wg := wg (calls c2 key_call) - 1\<rparr>)\<rparr>;
                     c4 = c3\<lparr>g_m := map_option (AList.delete k) (g_m c3)\<rparr>
                 in Inr ((val (calls c4 key_call), ret (calls c4 key_call)), c4))))"

text \<open>
  Lines 182 and 183, a waiter: \<^verbatim>\<open>wg.Wait()\<close> returns once the counter is 0, and the
  pair is read from the call.
\<close>

definition getData_wait :: "callref \<Rightarrow> ('k, 'v) Cache \<Rightarrow> fault + ('v iface \<times> int)" where
  "getData_wait key_call c =
     (if wg (calls c key_call) = 0
      then Inr (val (calls c key_call), ret (calls c key_call))
      else Inl Blocks)"

subsection \<open>What the other goroutines do during a call\<close>

text \<open>
  \<open>Refresh k now\<close>: a goroutine of \<open>upValue\<close> runs. \<open>Enter k\<close>: another caller runs
  lines 176 to 188 of \<open>getData\<close>. \<open>Finish k now\<close>: the goroutine that has registered the
  load of \<open>k\<close> runs lines 190 to 199.
\<close>

datatype 'k action = Refresh 'k time | Enter 'k | Finish 'k time

fun act :: "'k action \<Rightarrow> ('k, 'v) Cache \<Rightarrow> fault + ('k, 'v) Cache" where
  "act (Refresh k now) c = upValue_go k now c"
| "act (Enter k) c = Inr (snd (getData_enter k c))"
| "act (Finish k now) c =
     (case map_of (case g_m c of None \<Rightarrow> [] | Some m1 \<Rightarrow> m1) k of
        None \<Rightarrow> Inl NotEnabled
      | Some key_call \<Rightarrow>
          (case getData_load k key_call now c of
             Inl f \<Rightarrow> Inl f
           | Inr (r, c') \<Rightarrow> Inr c'))"

fun acts :: "'k action list \<Rightarrow> ('k, 'v) Cache \<Rightarrow> fault + ('k, 'v) Cache" where
  "acts [] c = Inr c"
| "acts (a # as) c = (case act a c of Inl f \<Rightarrow> Inl f | Inr c' \<Rightarrow> acts as c')"

text \<open>
  The points of a \<open>Get\<close> at which it holds no lock and others may run: after the lookup
  (line 112); while it is inside \<open>getData\<close>, between lines 188 and 190 or in
  \<^verbatim>\<open>wg.Wait()\<close>; before it takes the write lock (line 124 or 136); and after it has
  released it (line 129 or 138), before it reads the value it returns.
\<close>

record 'k others =
  after_lookup :: "'k action list"
  in_getData :: "'k action list"
  before_lock :: "'k action list"
  after_unlock :: "'k action list"

definition quiet :: "'k others" where
  "quiet = \<lparr> after_lookup = [], in_getData = [], before_lock = [], after_unlock = [] \<rparr>"

text \<open>
  \<^verbatim>\<open>getData\<close>, lines 175 to 200, with \<open>during\<close> what the others do while the call is
  between lines 188 and 190 or waits. A waiter that nothing has released waits for
  ever (\<open>Blocks\<close>).
\<close>

definition getData ::
  "'k \<Rightarrow> time \<Rightarrow> 'k action list \<Rightarrow> ('k, 'v) Cache
     \<Rightarrow> fault + (('v iface \<times> int) \<times> ('k, 'v) Cache)" where
  "getData k now during c =
     (case getData_enter k c of
        (Waits key_call, c1) \<Rightarrow>
          (case acts during c1 of
             Inl f \<Rightarrow> Inl f
           | Inr c2 \<Rightarrow>
               (case getData_wait key_call c2 of
                  Inl f \<Rightarrow> Inl f
                | Inr r \<Rightarrow> Inr (r, c2)))
      | (Loads key_call, c1) \<Rightarrow>
          (case acts during c1 of
             Inl f \<Rightarrow> Inl f
           | Inr c2 \<Rightarrow> getData_load k key_call now c2))"

subsection \<open>Get\<close>

text \<open>
  Lines 109 to 141. \<open>now\<close> is the first reading of the clock the call makes and
  \<open>now'\<close> the second one, taken under the write lock at line 125; \<open>oth\<close> is what the
  others do during the call. \<open>e\<close> is the element found by the lookup and \<open>heap _ e\<close>
  the \<^verbatim>\<open>*Value v\<close> of line 121: its heartbeat is read at line 122 from the cache as it
  is then, again at line 125 from the cache under the write lock, and its value is read
  last, from the cache as it is when the call returns (lines 130, 132 and 140). Reads
  with no lock taken in between are made at the same instant. The result is the
  returned pair, the cache after the call and the refreshes started.
\<close>

definition Get ::
  "'k \<Rightarrow> time \<Rightarrow> time \<Rightarrow> 'k others \<Rightarrow> ('k, 'v) Cache
     \<Rightarrow> fault + (('v iface \<times> int) \<times> ('k, 'v) Cache \<times> 'k list)" where
  "Get k now now' oth c =
     (case map_of (data c) k of
        None \<Rightarrow>
          (case acts (after_lookup oth) c of
             Inl f \<Rightarrow> Inl f
           | Inr c1 \<Rightarrow>
               (if upfunc c1 \<noteq> None then
                  (case getData k now (in_getData oth) c1 of
                     Inl f \<Rightarrow> Inl f
                   | Inr (r, c') \<Rightarrow> Inr (r, c', []))
                else Inr ((None, - 1), c1, [])))
      | Some e \<Rightarrow>
          (case acts (after_lookup oth) c of
             Inl f \<Rightarrow> Inl f
           | Inr c1 \<Rightarrow>
               (if expire c1 \<noteq> 0 \<and> heartbeat (heap c1 e) + expire c1 < now then
                  (if upfunc c1 \<noteq> None then
                     (case acts (before_lock oth) c1 of
                        Inl f \<Rightarrow> Inl f
                      | Inr c2 \<Rightarrow>
                          (let still = (heartbeat (heap c2 e) + expire c2 < now');
                               c3 = (if still then
                                       c2\<lparr>heap := (heap c2)(e := (heap c2 e)
                                            \<lparr>heartbeat := heartbeat (heap c2 e) + 3 * Second\<rparr>)\<rparr>
                                     else c2);
                               started = (if still then upValue k else [])
                           in case acts (after_unlock oth) c3 of
                                Inl f \<Rightarrow> Inl f
                              | Inr c4 \<Rightarrow> Inr ((value' (heap c4 e), 0), c4, started)))
                   else Inr ((value' (heap c1 e), - 1), c1, []))
                else
                  (if maxKeyCount c1 > 0 then
                     (case acts (before_lock oth) c1 of
                        Inl f \<Rightarrow> Inl f
                      | Inr c2 \<Rightarrow>
                          (case acts (after_unlock oth) (c2\<lparr>lru := MoveToFront e (lru c2)\<rparr>) of
                             Inl f \<Rightarrow> Inl f
                           | Inr c4 \<Rightarrow> Inr ((value' (heap c4 e), 0), c4, [])))
                   else Inr ((value' (heap c1 e), 0), c1, [])))))"

text \<open>
  What a call returns and the cache it leaves, read off the result of \<open>Get\<close>.
\<close>

definition returned :: "fault + ('r \<times> 'c \<times> 's) \<Rightarrow> fault + 'r" where
  "returned g = map_sum id fst g"

definition cache_after :: "fault + ('r \<times> 'c \<times> 's) \<Rightarrow> fault + 'c" where
  "cache_after g = map_sum id (fst \<circ> snd) g"

text \<open>
  Two caches that statements on \<open>getData\<close> name: the cache once a first caller has
  registered its load of \<open>k\<close> (lines 185 to 188), and the cache once that load has
  been carried out at time \<open>now\<close> with the loader \<open>f\<close> and removed (lines 190 to 198).
\<close>

abbreviation registered :: "'k \<Rightarrow> ('k, 'v) Cache \<Rightarrow> ('k, 'v) Cache" where
  "registered k c \<equiv>
     c\<lparr> calls := (calls c)(nextCall c := \<lparr>wg = Suc 0, val = None, ret = 0\<rparr>),
        nextCall := Suc (nextCall c),
        g_m := Some (AList.update k (nextCall c) (case g_m c of None \<Rightarrow> [] | Some m1 \<Rightarrow> m1)) \<rparr>"

abbreviation loaded ::
  "'k \<Rightarrow> ('k \<Rightarrow> 'v iface \<times> int) \<Rightarrow> time \<Rightarrow> ('k, 'v) Cache \<Rightarrow> ('k, 'v) Cache" where
  "loaded k f now c \<equiv>
     (if snd (f k) = 0 then Put k (fst (f k)) now c else c)
       \<lparr> g_m := Some (case g_m c of None \<Rightarrow> [] | Some m1 \<Rightarrow> m1),
          calls := (calls c)(nextCall c := \<lparr>wg = 0, val = fst (f k), ret = snd (f k)\<rparr>),
          nextCall := Suc (nextCall c),
          loads := Suc (loads c) \<rparr>"

subsection \<open>The sweep, Del and Clear\<close>

text \<open>
  \<^verbatim>\<open>clearExpired\<close>, lines 90 to 106. The loop ranges over the entries of the map; an
  entry is deleted only while it is the current one, so every entry the map had at the
  start is visited once, in an order the language leaves open (here the order of the
  association list, which is arbitrary).
\<close>

fun clearExpired_loop ::
  "time \<Rightarrow> ('k \<times> elem) list \<Rightarrow> ('k, 'v) Cache \<Rightarrow> ('k, 'v) Cache" where
  "clearExpired_loop now [] c = c"
| "clearExpired_loop now ((k, e) # es) c =
     clearExpired_loop now es
       (if heartbeat (heap c e) + expire c < now then
          c\<lparr>data := AList.delete k (data c), lru := Remove e (lru c)\<rparr>
        else c)"

definition clearExpired :: "time \<Rightarrow> ('k, 'v) Cache \<Rightarrow> ('k, 'v) Cache" where
  "clearExpired now c =
     (if expire c = 0 then c else clearExpired_loop now (data c) c)"

definition Del :: "'k \<Rightarrow> ('k, 'v) Cache \<Rightarrow> ('k, 'v) Cache" where
  "Del k c =
     (case map_of (data c) k of
        Some e \<Rightarrow> c\<lparr>lru := Remove e (lru c), data := AList.delete k (data c)\<rparr>
      | None \<Rightarrow> c)"

definition Clear :: "('k, 'v) Cache \<Rightarrow> ('k, 'v) Cache" where
  "Clear c = c\<lparr>data := [], lru := []\<rparr>"

subsection \<open>A loader\<close>

text \<open>
  \<^verbatim>\<open>GetDataSucc\<close> of gocache_test.go, lines 11 to 19, on string keys: the key with
  \<^verbatim>\<open>_value\<close> appended, and status 0.
\<close>

definition GetDataSucc :: "string \<Rightarrow> string iface \<times> int" where
  "GetDataSucc k = (Some (k @ ''_value''), 0)"

subsection \<open>The store invariant\<close>

text \<open>
  What the methods keep of the map and the list: every key is in the map once, every
  element in the list once, the elements of the list are those of the map, the
  \<^verbatim>\<open>Value\<close> of the element of a key carries that key, and every element in use has
  been allocated.
\<close>

definition store_inv ::
  "(elem \<Rightarrow> ('k, 'v) Value) \<Rightarrow> elem \<Rightarrow> elem list \<Rightarrow> ('k \<times> elem) list \<Rightarrow> bool" where
  "store_inv h n l d \<longleftrightarrow>
     distinct (map fst d) \<and> distinct l \<and> set l = snd ` set d \<and>
     (\<forall>k e. (k, e) \<in> set d \<longrightarrow> key (h e) = k) \<and>
     (\<forall>e. e \<in> set l \<longrightarrow> e < n)"

definition cache_inv :: "('k, 'v) Cache \<Rightarrow> bool" where
  "cache_inv c = store_inv (heap c) (nextElem c) (lru c) (data c)"

subsection \<open>Runs\<close>

text \<open>
  A run is a list of calls, each run alone and with the readings of the clock it makes:
  \<open>EvRefresh\<close> is the goroutine of \<open>upValue\<close> writing back, \<open>EvSweep\<close> one run of
  \<open>clearExpired\<close>. \<open>chrono t\<close> says that the readings of a run never go back, starting
  from \<open>t\<close>. \<open>heartbeat_of c k\<close> is the heartbeat of the entry of \<open>k\<close>, if there is one.
\<close>

datatype ('k, 'v) event =
    EvPut 'k "'v iface" time
  | EvGet 'k time time
  | EvRefresh 'k time
  | EvSweep time
  | EvDel 'k
  | EvClear

fun step :: "('k, 'v) event \<Rightarrow> ('k, 'v) Cache \<Rightarrow> fault + ('k, 'v) Cache" where
  "step (EvPut k v now) c = Inr (Put k v now c)"
| "step (EvGet k now now') c =
     (case Get k now now' quiet c of Inl f \<Rightarrow> Inl f | Inr (r, c', started) \<Rightarrow> Inr c')"
| "step (EvRefresh k now) c = upValue_go k now c"
| "step (EvSweep now) c = Inr (clearExpired now c)"
| "step (EvDel k) c = Inr (Del k c)"
| "step EvClear c = Inr (Clear c)"

fun run :: "('k, 'v) event list \<Rightarrow> ('k, 'v) Cache \<Rightarrow> fault + ('k, 'v) Cache" where
  "run [] c = Inr c"
| "run (ev # evs) c = (case step ev c of Inl f \<Rightarrow> Inl f | Inr c' \<Rightarrow> run evs c')"

fun ev_ok :: "time \<Rightarrow> ('k, 'v) event \<Rightarrow> bool" where
  "ev_ok t (EvPut k v now) = (t \<le> now)"
| "ev_ok t (EvGet k now now') = (t \<le> now \<and> now \<le> now')"
| "ev_ok t (EvRefresh k now) = (t \<le> now)"
| "ev_ok t (EvSweep now) = (t \<le> now)"
| "ev_ok t (EvDel k) = True"
| "ev_ok t EvClear = True"

fun ev_end :: "time \<Rightarrow> ('k, 'v) event \<Rightarrow> time" where
  "ev_end t (EvPut k v now) = now"
| "ev_end t (EvGet k now now') = now'"
| "ev_end t (EvRefresh k now) = now"
| "ev_end t (EvSweep now) = now"
| "ev_end t (EvDel k) = t"
| "ev_end t EvClear = t"

fun chrono :: "time \<Rightarrow> ('k, 'v) event list \<Rightarrow> bool" where
  "chrono t [] = True"
| "chrono t (ev # evs) = (ev_ok t ev \<and> chrono (ev_end t ev) evs)"

definition heartbeat_of :: "('k, 'v) Cache \<Rightarrow> 'k \<Rightarrow> time option" where
  "heartbeat_of c k = map_option (\<lambda>e. heartbeat (heap c e)) (map_of (data c) k)"

definition heartbeat_after :: "('k, 'v) event list \<Rightarrow> ('k, 'v) Cache \<Rightarrow> 'k \<Rightarrow> time option" where
  "heartbeat_after evs c k = (case run evs c of Inl f \<Rightarrow> None | Inr c' \<Rightarrow> heartbeat_of c' k)"

definition no_future :: "time \<Rightarrow> ('k, 'v) Cache \<Rightarrow> bool" where
  "no_future t c \<longleftrightarrow> (\<forall>k h. heartbeat_of c k = Some h \<longrightarrow> h \<le> t)"

text \<open>
  Between two caches: every heartbeat of the second one is either the time \<open>now\<close> of a
  write or the heartbeat the key had in the first one (\<open>kept_or_written\<close>); and no
  heartbeat of the second one is later than \<open>t'\<close>, nor earlier than the one the key had
  in the first one, nor earlier than \<open>t\<close> for a key that had none (\<open>advances\<close>).
\<close>

definition kept_or_written :: "time \<Rightarrow> ('k, 'v) Cache \<Rightarrow> ('k, 'v) Cache \<Rightarrow> bool" where
  "kept_or_written now c c' \<longleftrightarrow>
     (\<forall>k h. heartbeat_of c' k = Some h \<longrightarrow> h = now \<or> heartbeat_of c k = Some h)"

definition advances :: "time \<Rightarrow> time \<Rightarrow> ('k, 'v) Cache \<Rightarrow> ('k, 'v) Cache \<Rightarrow> bool" where
  "advances t t' c c' \<longleftrightarrow>
     (\<forall>k h'. heartbeat_of c' k = Some h' \<longrightarrow>
        h' \<le> t' \<and> (case heartbeat_of c k of Some h \<Rightarrow> h \<le> h' | None \<Rightarrow> t \<le> h'))"

section \<open>Evaluation\<close>

text \<open>The definitions that evaluate a cache built by the constructors.\<close>

lemmas list_ops = PushFront_def MoveToFront_def Remove_def Back_def

lemmas cache_ops = Put_def Put_write_def Put_evict_def New_def SetExpire_def
  SetMaxKeyCount_def SetUpFunc_def Len_def

lemmas run_ops = heartbeat_after_def heartbeat_of_def Get_def quiet_def getData_def
  getData_enter_def getData_load_def getData_wait_def upValue_def upValue_go_def
  clearExpired_def Del_def Clear_def GetDataSucc_def Second_def

lemmas obs = returned_def cache_after_def

section \<open>Lists and association lists\<close>

lemma update_absent:
  "map_of al k = None \<Longrightarrow> AList.update k v al = al @ [(k, v)]"
  by (induction al) (auto split: if_splits)

lemma delete_set:
  "distinct (map fst al) \<Longrightarrow> (k, v) \<in> set al \<Longrightarrow> set (AList.delete k al) = set al - {(k, v)}"
  by (induction al) (auto simp: rev_image_eqI)

lemma length_delete_present:
  "distinct (map fst al) \<Longrightarrow> (k, v) \<in> set al \<Longrightarrow> Suc (length (AList.delete k al)) = length al"
  by (induction al) (auto simp: rev_image_eqI)

lemma remove1_last: "distinct l \<Longrightarrow> l \<noteq> [] \<Longrightarrow> remove1 (last l) l = butlast l"
  by (induction l) (auto simp: remove1_idem)

lemma distinct_set_single: "distinct l \<Longrightarrow> set l = {e} \<Longrightarrow> l = [e]"
proof (cases l)
  case Nil
  assume "set l = {e}"
  then show ?thesis using Nil by simp
next
  case (Cons a as)
  assume d: "distinct l" and s: "set l = {e}"
  have a: "a = e" using s Cons by auto
  have "set as \<subseteq> {e}" using s Cons by auto
  moreover have "e \<notin> set as" using d Cons a by simp
  ultimately have "as = []" by (cases as) auto
  then show ?thesis using Cons a by simp
qed

lemma delete_filter:
  "distinct (map fst al) \<Longrightarrow> (k, e) \<in> set al \<Longrightarrow> AList.delete k al = filter (\<lambda>p. p \<noteq> (k, e)) al"
  by (induction al) (auto simp: rev_image_eqI intro!: filter_True[symmetric])

lemma remove1_filter: "distinct l \<Longrightarrow> remove1 e l = filter (\<lambda>x. x \<noteq> e) l"
  by (induction l) (auto intro!: filter_True[symmetric])

lemma map_of_filter_Some:
  "distinct (map fst al) \<Longrightarrow> map_of (filter P al) k = Some e \<Longrightarrow> map_of al k = Some e"
  by (meson filter_is_subset map_of_SomeD map_of_is_SomeI subsetD)

lemma register_remove:
  "map_of m0 k = None \<Longrightarrow> AList.delete k (AList.update k x m0) = m0"
  by (simp add: delete_update_same map_of_eq_None_iff)

lemma Back_Some: "l \<noteq> [] \<Longrightarrow> Back l = Some (last l)"
  by (cases l) (simp_all add: Back_def)

lemma Back_Nil: "Back [] = None"
  by (simp add: Back_def)

section \<open>The invariant and what the methods keep of it\<close>

lemma store_inv_snd_inj: "store_inv h n l d \<Longrightarrow> inj_on snd (set d)"
  unfolding store_inv_def by (rule inj_onI) (metis prod.collapse)

lemma store_inv_length: 
  assumes "store_inv h n l d" shows "length l = length d"
proof -
  have d: "distinct d" using assms by (simp add: store_inv_def distinct_map)
  have "distinct (map snd d)" using d store_inv_snd_inj[OF assms] by (simp add: distinct_map)
  then have "length d = card (snd ` set d)"
    by (metis distinct_card length_map set_map)
  moreover have "distinct l" using assms by (simp add: store_inv_def)
  then have "length l = card (set l)" by (simp add: distinct_card)
  moreover have "set l = snd ` set d" using assms by (simp add: store_inv_def)
  ultimately show ?thesis by simp
qed

lemma store_inv_lookup:
  assumes "store_inv h n l d" and "map_of d k = Some e"
  shows "(k, e) \<in> set d" and "e \<in> set l" and "key (h e) = k" and "e < n"
proof -
  show m: "(k, e) \<in> set d" using assms(2) by (rule map_of_SomeD)
  then show el: "e \<in> set l" using assms(1) unfolding store_inv_def by force
  show "key (h e) = k" using m assms(1) unfolding store_inv_def by blast
  show "e < n" using el assms(1) unfolding store_inv_def by blast
qed

lemma store_inv_new:
  assumes i: "store_inv h n l d" and nk: "map_of d k = None"
  shows "store_inv (h(n := \<lparr>key = k, value' = v, heartbeat = t\<rparr>)) (Suc n) (n # l) (d @ [(k, n)])"
proof -
  have k: "k \<notin> fst ` set d" using nk by (simp add: map_of_eq_None_iff)
  have f: "n \<notin> set l" using i unfolding store_inv_def by blast
  have f': "\<And>k'. (k', n) \<notin> set d" using i f unfolding store_inv_def by force
  have 1: "distinct (map fst (d @ [(k, n)]))" using i k by (simp add: store_inv_def)
  have 2: "distinct (n # l)" using i f by (simp add: store_inv_def)
  have 3: "set (n # l) = snd ` set (d @ [(k, n)])" using i by (simp add: store_inv_def)
  have 4: "\<forall>k' e. (k', e) \<in> set (d @ [(k, n)]) \<longrightarrow> key ((h(n := \<lparr>key = k, value' = v, heartbeat = t\<rparr>)) e) = k'"
    using i f' unfolding store_inv_def by auto
  have 5: "\<forall>e. e \<in> set (n # l) \<longrightarrow> e < Suc n"
    using i unfolding store_inv_def by (simp add: less_SucI)
  show ?thesis unfolding store_inv_def using 1 2 3 4 5 by blast
qed

lemma store_inv_touch:
  assumes i: "store_inv h n l d" and m: "map_of d k = Some e"
  shows "store_inv (h(e := (h e)\<lparr>value' := v, heartbeat := t\<rparr>)) n (e # remove1 e l) d"
proof -
  note l = store_inv_lookup[OF i m]
  have 2: "distinct (e # remove1 e l)" using i by (simp add: store_inv_def)
  have 3: "set (e # remove1 e l) = snd ` set d" using i l(2) by (auto simp: store_inv_def)
  have 4: "\<forall>k' e'. (k', e') \<in> set d \<longrightarrow> key ((h(e := (h e)\<lparr>value' := v, heartbeat := t\<rparr>)) e') = k'"
    using i unfolding store_inv_def by simp
  have 5: "\<forall>e'. e' \<in> set (e # remove1 e l) \<longrightarrow> e' < n"
    using i l(4) unfolding store_inv_def by (auto dest: notin_set_remove1)
  show ?thesis unfolding store_inv_def using i 2 3 4 5 unfolding store_inv_def by blast
qed

lemma store_inv_remove:
  assumes i: "store_inv h n l d" and m: "(k, e) \<in> set d"
  shows "store_inv h n (remove1 e l) (AList.delete k d)"
proof -
  have dd: "distinct (map fst d)" and dl: "distinct l" and sl: "set l = snd ` set d"
    using i by (simp_all add: store_inv_def)
  have s: "set (AList.delete k d) = set d - {(k, e)}" using dd m by (rule delete_set)
  have inj: "inj_on snd (set d)" using i by (rule store_inv_snd_inj)
  have 1: "distinct (map fst (AList.delete k d))" using dd by (rule distinct_delete)
  have 2: "distinct (remove1 e l)" using dl by simp
  have "snd ` (set d - {(k, e)}) = snd ` set d - {e}"
    using inj m by (auto simp: inj_on_def) force
  then have 3: "set (remove1 e l) = snd ` set (AList.delete k d)"
    using dl sl s by simp
  have 4: "\<forall>k' e'. (k', e') \<in> set (AList.delete k d) \<longrightarrow> key (h e') = k'"
    using i s unfolding store_inv_def by simp
  have 5: "\<forall>e'. e' \<in> set (remove1 e l) \<longrightarrow> e' < n"
    using i unfolding store_inv_def by (auto dest: notin_set_remove1)
  show ?thesis unfolding store_inv_def using 1 2 3 4 5 by blast
qed

lemma store_inv_back:
  assumes i: "store_inv h n l d" and ne: "l \<noteq> []"
  shows "(key (h (last l)), last l) \<in> set d"
proof -
  have "last l \<in> set l" using ne by simp
  then have "last l \<in> snd ` set d" using i by (simp add: store_inv_def)
  then obtain k where m: "(k, last l) \<in> set d" by auto
  then have "key (h (last l)) = k" using i unfolding store_inv_def by blast
  then show ?thesis using m by simp
qed

lemma inv_Put_write: "cache_inv c \<Longrightarrow> cache_inv (Put_write k v now c)"
proof (cases "map_of (data c) k")
  case None
  assume i: "cache_inv c"
  show ?thesis using store_inv_new[OF i[unfolded cache_inv_def] None]
    by (simp add: Put_write_def None PushFront_def update_absent[OF None] cache_inv_def Let_def)
next
  case (Some e)
  assume i: "cache_inv c"
  show ?thesis
    using store_inv_touch[OF i[unfolded cache_inv_def] Some]
      store_inv_lookup(2)[OF i[unfolded cache_inv_def] Some]
    by (simp add: Put_write_def Some MoveToFront_def cache_inv_def)
qed

lemma inv_Put_evict: "cache_inv c \<Longrightarrow> cache_inv (Put_evict c)"
proof (cases "lru c")
  case Nil
  assume "cache_inv c"
  then show ?thesis using Nil by (simp add: Put_evict_def Back_def)
next
  case (Cons a as)
  assume i: "cache_inv c"
  have ne: "lru c \<noteq> []" using Cons by simp
  show ?thesis
    using i store_inv_remove[OF i[unfolded cache_inv_def] store_inv_back[OF i[unfolded cache_inv_def] ne]]
    by (simp add: Put_evict_def Back_Some[OF ne] Remove_def cache_inv_def)
qed

lemma inv_Put: "cache_inv c \<Longrightarrow> cache_inv (Put k v now c)"
  unfolding Put_def by (intro inv_Put_evict inv_Put_write)

lemma inv_New: "cache_inv New"
  by (simp add: cache_inv_def store_inv_def New_def)

lemma inv_length: "cache_inv c \<Longrightarrow> length (lru c) = length (data c)"
  unfolding cache_inv_def by (rule store_inv_length)

lemma Put_write_length:
  "length (data (Put_write k v now c)) =
     (case map_of (data c) k of None \<Rightarrow> Suc (length (data c)) | Some e \<Rightarrow> length (data c))"
  by (cases "map_of (data c) k") (simp_all add: Put_write_def Let_def update_absent)

lemma Put_evict_skip:
  "\<not> (maxKeyCount c > 0 \<and> int (length (data c)) \<ge> maxKeyCount c) \<Longrightarrow> Put_evict c = c"
  unfolding Put_evict_def by (simp only: if_False)

lemma Put_evict_fire:
  assumes i: "cache_inv c" and f: "maxKeyCount c > 0" "int (length (data c)) \<ge> maxKeyCount c"
  shows "lru c \<noteq> []"
    and "Put_evict c = c\<lparr>lru := butlast (lru c),
                          data := AList.delete (key (heap c (last (lru c)))) (data c)\<rparr>"
    and "Suc (length (data (Put_evict c))) = length (data c)"
proof -
  have "length (lru c) = length (data c)" using i by (rule inv_length)
  then show ne: "lru c \<noteq> []" using f by auto
  have dl: "distinct (lru c)" and dd: "distinct (map fst (data c))"
    using i by (simp_all add: cache_inv_def store_inv_def)
  show e: "Put_evict c = c\<lparr>lru := butlast (lru c),
                           data := AList.delete (key (heap c (last (lru c)))) (data c)\<rparr>"
    using f by (simp add: Put_evict_def Back_Some[OF ne] Remove_def remove1_last[OF dl ne])
  have "Suc (length (AList.delete (key (heap c (last (lru c)))) (data c))) = length (data c)"
    using dd store_inv_back[OF i[unfolded cache_inv_def] ne] by (rule length_delete_present)
  then show "Suc (length (data (Put_evict c))) = length (data c)" using e by simp
qed

lemma inv_SetMaxKeyCount: "cache_inv c \<Longrightarrow> cache_inv (SetMaxKeyCount n c)"
  and inv_SetExpire: "cache_inv c \<Longrightarrow> cache_inv (SetExpire d c)"
  and inv_SetUpFunc: "cache_inv c \<Longrightarrow> cache_inv (SetUpFunc f c)"
  by (simp_all add: cache_inv_def SetMaxKeyCount_def SetExpire_def SetUpFunc_def)

lemma Put_write_config:
  "maxKeyCount (Put_write k v now c) = maxKeyCount c"
  "expire (Put_write k v now c) = expire c"
  "upfunc (Put_write k v now c) = upfunc c"
  "g_m (Put_write k v now c) = g_m c"
  "calls (Put_write k v now c) = calls c"
  "nextCall (Put_write k v now c) = nextCall c"
  "loads (Put_write k v now c) = loads c"
  by (simp_all add: Put_write_def Let_def split: option.split)

lemma Put_evict_config:
  "maxKeyCount (Put_evict c) = maxKeyCount c"
  "expire (Put_evict c) = expire c"
  "upfunc (Put_evict c) = upfunc c"
  "g_m (Put_evict c) = g_m c"
  "heap (Put_evict c) = heap c"
  "nextElem (Put_evict c) = nextElem c"
  "calls (Put_evict c) = calls c"
  "nextCall (Put_evict c) = nextCall c"
  "loads (Put_evict c) = loads c"
  by (simp_all add: Put_evict_def split: option.split)

lemma Put_write_aux:
  "Put_write k v now (c\<lparr>g_m := x\<rparr>) = (Put_write k v now c)\<lparr>g_m := x\<rparr>"
  "Put_write k v now (c\<lparr>calls := y\<rparr>) = (Put_write k v now c)\<lparr>calls := y\<rparr>"
  "Put_write k v now (c\<lparr>nextCall := n\<rparr>) = (Put_write k v now c)\<lparr>nextCall := n\<rparr>"
  "Put_write k v now (c\<lparr>loads := l\<rparr>) = (Put_write k v now c)\<lparr>loads := l\<rparr>"
  by (simp_all add: Put_write_def Let_def split: option.split)

lemma Put_evict_aux:
  "Put_evict (c\<lparr>g_m := x\<rparr>) = (Put_evict c)\<lparr>g_m := x\<rparr>"
  "Put_evict (c\<lparr>calls := y\<rparr>) = (Put_evict c)\<lparr>calls := y\<rparr>"
  "Put_evict (c\<lparr>nextCall := n\<rparr>) = (Put_evict c)\<lparr>nextCall := n\<rparr>"
  "Put_evict (c\<lparr>loads := l\<rparr>) = (Put_evict c)\<lparr>loads := l\<rparr>"
  by (simp_all add: Put_evict_def split: option.split)

lemma Put_aux:
  "Put k v now (c\<lparr>g_m := x\<rparr>) = (Put k v now c)\<lparr>g_m := x\<rparr>"
  "Put k v now (c\<lparr>calls := y\<rparr>) = (Put k v now c)\<lparr>calls := y\<rparr>"
  "Put k v now (c\<lparr>nextCall := n\<rparr>) = (Put k v now c)\<lparr>nextCall := n\<rparr>"
  "Put k v now (c\<lparr>loads := l\<rparr>) = (Put k v now c)\<lparr>loads := l\<rparr>"
  by (simp_all add: Put_def Put_write_aux Put_evict_aux)

lemma Put_config:
  "maxKeyCount (Put k v now c) = maxKeyCount c"
  "expire (Put k v now c) = expire c"
  "upfunc (Put k v now c) = upfunc c"
  "g_m (Put k v now c) = g_m c"
  "calls (Put k v now c) = calls c"
  "nextCall (Put k v now c) = nextCall c"
  "loads (Put k v now c) = loads c"
  by (simp_all add: Put_def Put_write_config Put_evict_config)

text \<open>
  Two facts on the size bound and on reading back what was written. A cache that holds
  fewer entries than its maximum still does after a \<open>Put\<close>, so a cache filled from
  empty never reaches the maximum. Unless the maximum is 1, the entry a \<open>Put\<close> has
  written is still there when it returns, and a \<open>Get\<close> before the time-to-live has
  elapsed returns the value with status 0.
\<close>

lemma Put_below_max:
  assumes i: "cache_inv c" and pos: "0 < maxKeyCount c" and lt: "int (Len c) < maxKeyCount c"
  shows "int (Len (Put k v now c)) < maxKeyCount c"
proof -
  let ?w = "Put_write k v now c"
  have iw: "cache_inv ?w" using i by (rule inv_Put_write)
  have lw: "length (data ?w) \<le> Suc (length (data c))"
    by (simp add: Put_write_length split: option.split)
  show ?thesis
  proof (cases "maxKeyCount ?w > 0 \<and> int (length (data ?w)) \<ge> maxKeyCount ?w")
    case False
    then have "Put_evict ?w = ?w" by (rule Put_evict_skip)
    then show ?thesis using False pos by (simp add: Put_def Len_def Put_write_config)
  next
    case True
    then have t: "maxKeyCount ?w > 0" "int (length (data ?w)) \<ge> maxKeyCount ?w" by simp_all
    note f = Put_evict_fire[OF iw t]
    show ?thesis using f(3) lw lt by (simp add: Put_def Len_def)
  qed
qed

lemma Put_stores:
  assumes i: "cache_inv c" and m: "map_of (data (Put k v now c)) k = Some e"
  shows "heap (Put k v now c) e = \<lparr>key = k, value' = v, heartbeat = now\<rparr>"
proof -
  let ?w = "Put_write k v now c"
  have si: "store_inv (heap c) (nextElem c) (lru c) (data c)" using i by (simp add: cache_inv_def)
  have h: "heap (Put k v now c) = heap ?w" by (simp add: Put_def Put_evict_config)
  have "map_of (data (Put_evict ?w)) k = Some e" using m by (simp add: Put_def)
  then have mw: "map_of (data ?w) k = Some e"
    by (auto simp: Put_evict_def delete_conv' split: if_splits option.splits)
  show ?thesis
  proof (cases "map_of (data c) k")
    case None
    then have "e = nextElem c" using mw
      by (simp add: Put_write_def Let_def update_conv')
    then show ?thesis using None by (simp add: h Put_write_def Let_def)
  next
    case (Some e')
    then have "e = e'" using mw by (simp add: Put_write_def)
    moreover have "key (heap c e') = k" using store_inv_lookup(3)[OF si Some] .
    ultimately show ?thesis using Some by (simp add: h Put_write_def)
  qed
qed

lemma Put_keeps_key:
  assumes i: "cache_inv c" and m1: "maxKeyCount c \<noteq> 1"
  shows "\<exists>e. map_of (data (Put k v now c)) k = Some e"
proof -
  let ?w = "Put_write k v now c"
  have iw: "cache_inv ?w" using i by (rule inv_Put_write)
  have siw: "store_inv (heap ?w) (nextElem ?w) (lru ?w) (data ?w)" using iw by (simp add: cache_inv_def)
  have "\<exists>e rest. map_of (data ?w) k = Some e \<and> lru ?w = e # rest"
  proof (cases "map_of (data c) k")
    case None
    then show ?thesis by (simp add: Put_write_def Let_def PushFront_def update_conv')
  next
    case (Some e)
    have "e \<in> set (lru c)" using store_inv_lookup(2)[OF i[unfolded cache_inv_def] Some] .
    then show ?thesis using Some by (simp add: Put_write_def MoveToFront_def)
  qed
  then obtain e rest where mw: "map_of (data ?w) k = Some e" and lw: "lru ?w = e # rest" by blast
  show ?thesis
  proof (cases "maxKeyCount ?w > 0 \<and> int (length (data ?w)) \<ge> maxKeyCount ?w")
    case False
    then have "Put_evict ?w = ?w" by (rule Put_evict_skip)
    then show ?thesis using mw by (simp add: Put_def)
  next
    case True
    then have t: "maxKeyCount ?w > 0" "int (length (data ?w)) \<ge> maxKeyCount ?w" by simp_all
    note f = Put_evict_fire[OF iw t]
    have len: "length (lru ?w) = length (data ?w)" using iw by (rule inv_length)
    have "rest \<noteq> []"
    proof
      assume "rest = []"
      then have "length (data ?w) = 1" using len lw by simp
      then have "maxKeyCount c = 1" using t by (simp add: Put_write_config)
      then show False using m1 by simp
    qed
    then have la: "last (lru ?w) = last rest" and "last rest \<in> set rest" by (simp_all add: lw)
    moreover have "distinct (lru ?w)" using siw by (simp add: store_inv_def)
    ultimately have ne: "last (lru ?w) \<noteq> e" using lw by auto
    have "lru ?w \<noteq> []" using lw by simp
    then have b: "(key (heap ?w (last (lru ?w))), last (lru ?w)) \<in> set (data ?w)"
      using siw by (rule store_inv_back[rotated])
    have "key (heap ?w (last (lru ?w))) \<noteq> k"
    proof
      assume "key (heap ?w (last (lru ?w))) = k"
      then have "(k, last (lru ?w)) \<in> set (data ?w)" using b by simp
      moreover have "distinct (map fst (data ?w))" using siw by (simp add: store_inv_def)
      ultimately have "map_of (data ?w) k = Some (last (lru ?w))" by simp
      then show False using mw ne by simp
    qed
    then show ?thesis using mw by (simp add: Put_def f(2))
  qed
qed

lemma Put_then_Get:
  assumes i: "cache_inv c" and m1: "maxKeyCount c \<noteq> 1"
    and fresh: "expire c = 0 \<or> \<not> t + expire c < now"
  shows "\<exists>c' started. Get k now now' quiet (Put k v t c) = Inr ((v, 0), c', started)"
proof -
  from Put_keeps_key[OF i m1] obtain e where m: "map_of (data (Put k v t c)) k = Some e" by blast
  have h: "heap (Put k v t c) e = \<lparr>key = k, value' = v, heartbeat = t\<rparr>"
    using i m by (rule Put_stores)
  show ?thesis using fresh by (auto simp: Get_def quiet_def m h Let_def Put_config)
qed

section \<open>The sweep\<close>

lemma clearExpired_loop_fields:
  "heap (clearExpired_loop now es c) = heap c \<and> expire (clearExpired_loop now es c) = expire c \<and>
   nextElem (clearExpired_loop now es c) = nextElem c"
  by (induction es arbitrary: c) auto

lemma clearExpired_loop_eq:
  assumes "store_inv (heap c) (nextElem c) (lru c) (data c)"
    and "distinct (map fst es)" and "set es \<subseteq> set (data c)"
  shows "clearExpired_loop now es c =
           c\<lparr>data := filter (\<lambda>p. \<not> (p \<in> set es \<and> heartbeat (heap c (snd p)) + expire c < now)) (data c),
             lru := filter (\<lambda>x. \<not> (x \<in> snd ` set es \<and> heartbeat (heap c x) + expire c < now)) (lru c)\<rparr>"
  using assms
proof (induction es arbitrary: c)
  case Nil
  then show ?case by simp
next
  case (Cons p es)
  obtain k e where p: "p = (k, e)" by (cases p)
  have dd: "distinct (map fst (data c))" and dl: "distinct (lru c)"
    using Cons.prems(1) by (simp_all add: store_inv_def)
  have pin: "(k, e) \<in> set (data c)" using Cons.prems(3) p by simp
  have des: "distinct (map fst es)" and kes: "k \<notin> fst ` set es"
    using Cons.prems(2) p by simp_all
  have ees: "e \<notin> snd ` set es"
  proof
    assume "e \<in> snd ` set es"
    then obtain k' where "(k', e) \<in> set es" by auto
    then have "(k', e) \<in> set (data c)" and "k' \<in> fst ` set es" using Cons.prems(3) by force+
    then have "k' = k" using Cons.prems(1) pin unfolding store_inv_def by metis
    then show False using kes \<open>k' \<in> fst ` set es\<close> by simp
  qed
  show ?case
  proof (cases "heartbeat (heap c e) + expire c < now")
    case False
    have "clearExpired_loop now (p # es) c = clearExpired_loop now es c"
      using False p by simp
    also have "\<dots> = c\<lparr>data := filter (\<lambda>p. \<not> (p \<in> set es \<and> heartbeat (heap c (snd p)) + expire c < now)) (data c),
             lru := filter (\<lambda>x. \<not> (x \<in> snd ` set es \<and> heartbeat (heap c x) + expire c < now)) (lru c)\<rparr>"
      using Cons.prems des by (intro Cons.IH) auto
    also have "filter (\<lambda>p. \<not> (p \<in> set es \<and> heartbeat (heap c (snd p)) + expire c < now)) (data c)
       = filter (\<lambda>q. \<not> (q \<in> set (p # es) \<and> heartbeat (heap c (snd q)) + expire c < now)) (data c)"
      using False p by (intro filter_cong) auto
    also have "filter (\<lambda>x. \<not> (x \<in> snd ` set es \<and> heartbeat (heap c x) + expire c < now)) (lru c)
       = filter (\<lambda>x. \<not> (x \<in> snd ` set (p # es) \<and> heartbeat (heap c x) + expire c < now)) (lru c)"
      using False p by (intro filter_cong) auto
    finally show ?thesis .
  next
    case True
    let ?c = "c\<lparr>data := AList.delete k (data c), lru := Remove e (lru c)\<rparr>"
    have i': "store_inv (heap ?c) (nextElem ?c) (lru ?c) (data ?c)"
      using store_inv_remove[OF Cons.prems(1) pin] by (simp add: Remove_def)
    have sub: "set es \<subseteq> set (data ?c)"
      using Cons.prems(3) kes delete_set[OF dd pin] by force
    have "clearExpired_loop now (p # es) c = clearExpired_loop now es ?c"
      using True p by simp
    also have "\<dots> = ?c\<lparr>data := filter (\<lambda>p. \<not> (p \<in> set es \<and> heartbeat (heap ?c (snd p)) + expire ?c < now)) (data ?c),
             lru := filter (\<lambda>x. \<not> (x \<in> snd ` set es \<and> heartbeat (heap ?c x) + expire ?c < now)) (lru ?c)\<rparr>"
      using i' des sub by (rule Cons.IH)
    also have "\<dots> = c\<lparr>data := filter (\<lambda>p. \<not> (p \<in> set es \<and> heartbeat (heap c (snd p)) + expire c < now)) (filter (\<lambda>p. p \<noteq> (k, e)) (data c)),
             lru := filter (\<lambda>x. \<not> (x \<in> snd ` set es \<and> heartbeat (heap c x) + expire c < now)) (filter (\<lambda>x. x \<noteq> e) (lru c))\<rparr>"
      by (simp add: delete_filter[OF dd pin] Remove_def remove1_filter[OF dl])
    also have "filter (\<lambda>p. \<not> (p \<in> set es \<and> heartbeat (heap c (snd p)) + expire c < now)) (filter (\<lambda>p. p \<noteq> (k, e)) (data c))
       = filter (\<lambda>q. \<not> (q \<in> set (p # es) \<and> heartbeat (heap c (snd q)) + expire c < now)) (data c)"
      unfolding filter_filter using True p by (intro filter_cong) auto
    also have "filter (\<lambda>x. \<not> (x \<in> snd ` set es \<and> heartbeat (heap c x) + expire c < now)) (filter (\<lambda>x. x \<noteq> e) (lru c))
       = filter (\<lambda>x. \<not> (x \<in> snd ` set (p # es) \<and> heartbeat (heap c x) + expire c < now)) (lru c)"
      unfolding filter_filter using True p by (intro filter_cong) auto
    finally show ?thesis .
  qed
qed

lemma store_inv_filter:
  assumes "store_inv h n l d"
  shows "store_inv h n (filter P l) (filter (\<lambda>p. P (snd p)) d)"
proof -
  have 1: "distinct (map fst (filter (\<lambda>p. P (snd p)) d))"
    using assms by (simp add: store_inv_def distinct_map_filter)
  have 2: "distinct (filter P l)" using assms by (simp add: store_inv_def)
  have "set l = snd ` set d" using assms by (simp add: store_inv_def)
  then have 3: "set (filter P l) = snd ` set (filter (\<lambda>p. P (snd p)) d)" by force
  have 4: "\<forall>k e. (k, e) \<in> set (filter (\<lambda>p. P (snd p)) d) \<longrightarrow> key (h e) = k"
    using assms by (simp add: store_inv_def)
  have 5: "\<forall>e. e \<in> set (filter P l) \<longrightarrow> e < n"
    using assms by (simp add: store_inv_def)
  show ?thesis unfolding store_inv_def using 1 2 3 4 5 by blast
qed

lemma clearExpired_result:
  assumes "cache_inv c"
  shows "clearExpired now c =
           (if expire c = 0 then c
            else c\<lparr>data := filter (\<lambda>p. \<not> heartbeat (heap c (snd p)) + expire c < now) (data c),
                   lru := filter (\<lambda>e. \<not> heartbeat (heap c e) + expire c < now) (lru c)\<rparr>)
         \<and> cache_inv (clearExpired now c)"
proof -
  have si: "store_inv (heap c) (nextElem c) (lru c) (data c)"
    using assms by (simp add: cache_inv_def)
  have dd: "distinct (map fst (data c))" and sl: "set (lru c) = snd ` set (data c)"
    using si by (simp_all add: store_inv_def)
  have l: "clearExpired_loop now (data c) c =
      c\<lparr>data := filter (\<lambda>p. \<not> (p \<in> set (data c) \<and> heartbeat (heap c (snd p)) + expire c < now)) (data c),
        lru := filter (\<lambda>x. \<not> (x \<in> snd ` set (data c) \<and> heartbeat (heap c x) + expire c < now)) (lru c)\<rparr>"
    using si dd by (rule clearExpired_loop_eq) simp
  have fd: "filter (\<lambda>p. \<not> (p \<in> set (data c) \<and> heartbeat (heap c (snd p)) + expire c < now)) (data c)
      = filter (\<lambda>p. \<not> heartbeat (heap c (snd p)) + expire c < now) (data c)"
    by (intro filter_cong) auto
  have fl: "filter (\<lambda>x. \<not> (x \<in> snd ` set (data c) \<and> heartbeat (heap c x) + expire c < now)) (lru c)
      = filter (\<lambda>e. \<not> heartbeat (heap c e) + expire c < now) (lru c)"
    using sl by (intro filter_cong) auto
  have e: "clearExpired now c =
           (if expire c = 0 then c
            else c\<lparr>data := filter (\<lambda>p. \<not> heartbeat (heap c (snd p)) + expire c < now) (data c),
                   lru := filter (\<lambda>e. \<not> heartbeat (heap c e) + expire c < now) (lru c)\<rparr>)"
    unfolding clearExpired_def l fd fl by (rule refl)
  have "cache_inv (clearExpired now c)"
    unfolding e using assms store_inv_filter[OF si, of "\<lambda>e. \<not> heartbeat (heap c e) + expire c < now"]
    by (simp add: cache_inv_def)
  then show ?thesis using e by blast
qed

section \<open>Heartbeats along a run\<close>

lemma ev_end_ge: "ev_ok t ev \<Longrightarrow> t \<le> ev_end t ev"
  by (cases ev) auto

lemma heap_upd_heartbeat:
  assumes i: "cache_inv c" and m: "map_of (data c) k = Some e"
  shows "heartbeat_of (c\<lparr>heap := (heap c)(e := x)\<rparr>) k' =
           (if k' = k then Some (heartbeat x) else heartbeat_of c k')"
proof (cases "k' = k")
  case True
  then show ?thesis using m by (simp add: heartbeat_of_def)
next
  case False
  have si: "store_inv (heap c) (nextElem c) (lru c) (data c)" using i by (simp add: cache_inv_def)
  show ?thesis
  proof (cases "map_of (data c) k'")
    case None
    then show ?thesis using False by (simp add: heartbeat_of_def)
  next
    case (Some e')
    have "key (heap c e') = k'" "key (heap c e) = k"
      using store_inv_lookup(3)[OF si Some] store_inv_lookup(3)[OF si m] by simp_all
    then have "e' \<noteq> e" using False by auto
    then show ?thesis using False Some by (simp add: heartbeat_of_def)
  qed
qed

lemma heap_upd_inv:
  assumes i: "cache_inv c" and m: "map_of (data c) k = Some e" and x: "key x = k"
  shows "cache_inv (c\<lparr>heap := (heap c)(e := x)\<rparr>)"
proof -
  have si: "store_inv (heap c) (nextElem c) (lru c) (data c)" using i by (simp add: cache_inv_def)
  have "key (heap c e) = k" using store_inv_lookup(3)[OF si m] .
  then have "\<forall>k' e'. (k', e') \<in> set (data c) \<longrightarrow> key (((heap c)(e := x)) e') = k'"
    using si x unfolding store_inv_def by auto
  then show ?thesis using si unfolding cache_inv_def store_inv_def by simp
qed

lemma Put_write_heartbeat:
  assumes i: "cache_inv c"
  shows "heartbeat_of (Put_write k v now c) k' =
           (if k' = k then Some now else heartbeat_of c k')"
proof (cases "map_of (data c) k")
  case None
  have si: "store_inv (heap c) (nextElem c) (lru c) (data c)" using i by (simp add: cache_inv_def)
  have w: "data (Put_write k v now c) = data c @ [(k, nextElem c)]"
    "heap (Put_write k v now c) = (heap c)(nextElem c := \<lparr>key = k, value' = v, heartbeat = now\<rparr>)"
    by (simp_all add: Put_write_def None Let_def update_absent[OF None])
  show ?thesis
  proof (cases "k' = k")
    case True
    then show ?thesis using None by (simp add: heartbeat_of_def w map_add_def)
  next
    case False
    show ?thesis
    proof (cases "map_of (data c) k'")
      case None
      then show ?thesis using False by (simp add: heartbeat_of_def w map_add_def)
    next
      case (Some e')
      have "e' < nextElem c" using store_inv_lookup(4)[OF si Some] .
      then show ?thesis using False Some by (simp add: heartbeat_of_def w map_add_def)
    qed
  qed
next
  case (Some e)
  have "heartbeat_of (Put_write k v now c) k'
      = heartbeat_of (c\<lparr>heap := (heap c)(e := (heap c e)\<lparr>value' := v, heartbeat := now\<rparr>)\<rparr>) k'"
    by (simp add: Put_write_def Some heartbeat_of_def)
  then show ?thesis using heap_upd_heartbeat[OF i Some] by simp
qed

lemma delete_heartbeat:
  "heartbeat_of (c\<lparr>lru := l, data := AList.delete x (data c)\<rparr>) k' = Some h
     \<Longrightarrow> heartbeat_of c k' = Some h"
  by (cases "k' = x") (auto simp: heartbeat_of_def delete_conv')

lemma Put_evict_heartbeat:
  "heartbeat_of (Put_evict c) k' = Some h \<Longrightarrow> heartbeat_of c k' = Some h"
  unfolding Put_evict_def
  by (auto split: if_splits option.splits dest: delete_heartbeat)

lemma Put_heartbeat:
  assumes "cache_inv c" and "heartbeat_of (Put k v now c) k' = Some h"
  shows "(k' = k \<and> h = now) \<or> heartbeat_of c k' = Some h"
  using Put_evict_heartbeat[OF assms(2)[unfolded Put_def]] Put_write_heartbeat[OF assms(1)]
  by (auto split: if_splits)

lemma kept_refl: "kept_or_written now c c"
  by (simp add: kept_or_written_def)

lemma kept_Put: "cache_inv c \<Longrightarrow> kept_or_written now c (Put k v now c)"
  unfolding kept_or_written_def using Put_heartbeat by fast

lemma heartbeat_of_aux [simp]:
  "heartbeat_of (c\<lparr>g_m := x\<rparr>) k = heartbeat_of c k"
  "heartbeat_of (c\<lparr>calls := y\<rparr>) k = heartbeat_of c k"
  "heartbeat_of (c\<lparr>nextCall := n\<rparr>) k = heartbeat_of c k"
  "heartbeat_of (c\<lparr>loads := l\<rparr>) k = heartbeat_of c k"
  "heartbeat_of (c\<lparr>lru := z\<rparr>) k = heartbeat_of c k"
  by (simp_all add: heartbeat_of_def)

lemma cache_inv_aux [simp]:
  "cache_inv (c\<lparr>g_m := x\<rparr>) = cache_inv c"
  "cache_inv (c\<lparr>calls := y\<rparr>) = cache_inv c"
  "cache_inv (c\<lparr>nextCall := n\<rparr>) = cache_inv c"
  "cache_inv (c\<lparr>loads := l\<rparr>) = cache_inv c"
  by (simp_all add: cache_inv_def)

lemma kept_aux [simp]:
  "kept_or_written now c (c'\<lparr>g_m := x\<rparr>) = kept_or_written now c c'"
  "kept_or_written now c (c'\<lparr>calls := y\<rparr>) = kept_or_written now c c'"
  "kept_or_written now c (c'\<lparr>nextCall := n\<rparr>) = kept_or_written now c c'"
  "kept_or_written now c (c'\<lparr>loads := l\<rparr>) = kept_or_written now c c'"
  by (simp_all add: kept_or_written_def)

lemma getData_enter_store:
  assumes "getData_enter k c = (rl, c1)"
  shows "\<exists>x y n. c1 = c\<lparr>g_m := x, calls := y, nextCall := n\<rparr>"
proof -
  have "c1 = c\<lparr>g_m := g_m c1, calls := calls c1, nextCall := nextCall c1\<rparr>"
    using assms by (auto simp: getData_enter_def Let_def split: option.splits)
  then show ?thesis by blast
qed

lemma getData_load_store:
  assumes "getData_load k key_call now c = Inr (r, c')"
  shows "\<exists>x y l. c' = (if snd r = 0 then Put k (fst r) now c else c)\<lparr>g_m := x, calls := y, loads := l\<rparr>"
proof -
  let ?b = "if snd r = 0 then Put k (fst r) now c else c"
  have "c' = ?b\<lparr>g_m := g_m c', calls := calls c', loads := loads c'\<rparr>"
    using assms
    by (auto simp: getData_load_def Let_def Put_aux Put_config split: option.splits if_splits)
  then show ?thesis by blast
qed

lemma getData_step:
  assumes i: "cache_inv c" and g: "getData k now [] c = Inr (r, c')"
  shows "cache_inv c'" and "expire c' = expire c" and "kept_or_written now c c'"
proof -
  obtain rl c1 where e: "getData_enter k c = (rl, c1)" by (cases "getData_enter k c")
  from getData_enter_store[OF e] obtain x y n where c1: "c1 = c\<lparr>g_m := x, calls := y, nextCall := n\<rparr>"
    by blast
  have "cache_inv c' \<and> expire c' = expire c \<and> kept_or_written now c c'"
  proof (cases rl)
    case (Waits key_call)
    then have "c' = c1" using g e
      by (auto simp: getData_def split: sum.splits)
    then show ?thesis using i by (simp add: c1 kept_refl)
  next
    case (Loads key_call)
    then have "getData_load k key_call now c1 = Inr (r, c')" using g e
      by (simp add: getData_def)
    from getData_load_store[OF this] obtain x' y' l' where
      c': "c' = (if snd r = 0 then Put k (fst r) now c1 else c1)\<lparr>g_m := x', calls := y', loads := l'\<rparr>"
      by blast
    show ?thesis using i by (simp add: c' c1 Put_aux Put_config inv_Put kept_Put kept_refl)
  qed
  then show "cache_inv c'" and "expire c' = expire c" and "kept_or_written now c c'" by blast+
qed

lemma upValue_go_result:
  assumes "upValue_go k now c = Inr c'"
  shows "(\<exists>v. c' = (Put k v now c)\<lparr>loads := Suc (loads c)\<rparr>) \<or> c' = c\<lparr>loads := Suc (loads c)\<rparr>"
  using assms by (cases "upfunc c") (auto simp: upValue_go_def Let_def Put_aux)

lemma upValue_go_step:
  assumes i: "cache_inv c" and g: "upValue_go k now c = Inr c'"
  shows "cache_inv c'" and "expire c' = expire c" and "kept_or_written now c c'"
proof -
  note c' = upValue_go_result[OF g]
  show "cache_inv c'" using i c' inv_Put by auto
  show "expire c' = expire c" using c' Put_config(2) by auto
  show "kept_or_written now c c'" using i c' kept_Put kept_refl by auto
qed

lemma filter_heartbeat:
  assumes "distinct (map fst (data c))"
    and "heartbeat_of (c\<lparr>data := filter P (data c), lru := l\<rparr>) k = Some h"
  shows "heartbeat_of c k = Some h"
proof -
  from assms(2) obtain e where "map_of (filter P (data c)) k = Some e" and "heartbeat (heap c e) = h"
    by (auto simp: heartbeat_of_def)
  then show ?thesis using map_of_filter_Some[OF assms(1)] by (simp add: heartbeat_of_def)
qed

lemma kept_advances:
  assumes "kept_or_written now c c'" and "no_future t c" and "t \<le> now" and "now \<le> t'"
  shows "advances t t' c c'"
  unfolding advances_def
proof (intro allI impI)
  fix k h' assume h: "heartbeat_of c' k = Some h'"
  then consider "h' = now" | "heartbeat_of c k = Some h'"
    using assms(1) unfolding kept_or_written_def by blast
  then show "h' \<le> t' \<and> (case heartbeat_of c k of Some h \<Rightarrow> h \<le> h' | None \<Rightarrow> t \<le> h')"
  proof cases
    case 1
    then show ?thesis using assms(2-4) unfolding no_future_def
      by (cases "heartbeat_of c k") force+
  next
    case 2
    then show ?thesis using assms(2-4) unfolding no_future_def by force
  qed
qed

lemma kept_sweep: "cache_inv c \<Longrightarrow> kept_or_written now c (clearExpired t c)"
proof -
  assume i: "cache_inv c"
  have dd: "distinct (map fst (data c))" using i by (simp add: cache_inv_def store_inv_def)
  show ?thesis
    unfolding kept_or_written_def conjunct1[OF clearExpired_result[OF i]]
    using filter_heartbeat[OF dd] by auto
qed

lemma inv_Del: "cache_inv c \<Longrightarrow> cache_inv (Del k c)"
proof (cases "map_of (data c) k")
  case None
  assume "cache_inv c"
  then show ?thesis using None by (simp add: Del_def)
next
  case (Some e)
  assume i: "cache_inv c"
  have si: "store_inv (heap c) (nextElem c) (lru c) (data c)" using i by (simp add: cache_inv_def)
  show ?thesis using store_inv_remove[OF si store_inv_lookup(1)[OF si Some]]
    by (simp add: Del_def Some Remove_def cache_inv_def)
qed

lemma kept_Del: "kept_or_written now c (Del k c)"
  unfolding kept_or_written_def Del_def
  by (auto split: option.splits dest: delete_heartbeat)

lemma inv_Clear: "cache_inv (Clear c)"
  by (simp add: Clear_def cache_inv_def store_inv_def)

lemma kept_Clear: "kept_or_written now c (Clear c)"
  by (simp add: kept_or_written_def Clear_def heartbeat_of_def)

lemma Second_pos: "0 < Second"
  by (simp add: Second_def)

lemma Get_step:
  assumes i: "cache_inv c" and g: "Get k now now' quiet c = Inr (r, c', started)"
    and gr: "expire c = 0 \<or> 3 * Second \<le> expire c"
    and nf: "no_future t c" and t: "t \<le> now" "now \<le> now'"
  shows "cache_inv c'" and "expire c' = expire c" and "advances t now' c c'"
proof -
  have "cache_inv c' \<and> expire c' = expire c \<and> advances t now' c c'"
  proof (cases "map_of (data c) k")
    case None
    show ?thesis
    proof (cases "upfunc c")
      case N: None
      then have "c' = c" using g None by (simp add: Get_def quiet_def)
      then show ?thesis using i kept_advances[OF kept_refl nf t] by simp
    next
      case (Some f)
      then obtain r' where gd: "getData k now [] c = Inr (r', c')"
        using g None by (auto simp: Get_def quiet_def split: sum.splits)
      show ?thesis using getData_step[OF i gd] kept_advances[OF _ nf t] by blast
    qed
  next
    case (Some e)
    let ?v = "heap c e"
    show ?thesis
    proof (cases "expire c \<noteq> 0 \<and> heartbeat ?v + expire c < now")
      case False
      then have "c' = c \<or> c' = c\<lparr>lru := MoveToFront e (lru c)\<rparr>"
        using g Some by (auto simp: Get_def quiet_def Let_def split: if_splits)
      moreover have "cache_inv (c\<lparr>lru := MoveToFront e (lru c)\<rparr>)"
        using i store_inv_lookup(2)[OF i[unfolded cache_inv_def] Some]
        by (auto simp: cache_inv_def store_inv_def MoveToFront_def)
      moreover have "kept_or_written now c (c\<lparr>lru := MoveToFront e (lru c)\<rparr>)"
        by (simp add: kept_or_written_def)
      ultimately show ?thesis using i kept_advances[OF _ nf t] kept_refl by auto
    next
      case True
      show ?thesis
      proof (cases "upfunc c \<noteq> None \<and> heartbeat ?v + expire c < now'")
        case False
        then have "c' = c" using g Some True by (auto simp: Get_def quiet_def Let_def split: if_splits)
        then show ?thesis using i kept_advances[OF kept_refl nf t] by simp
      next
        case T: True
        have c': "c' = c\<lparr>heap := (heap c)(e := ?v\<lparr>heartbeat := heartbeat ?v + 3 * Second\<rparr>)\<rparr>"
          using g Some True T by (auto simp: Get_def quiet_def Let_def)
        have kv: "key (?v\<lparr>heartbeat := heartbeat ?v + 3 * Second\<rparr>) = k"
          using store_inv_lookup(3)[OF i[unfolded cache_inv_def] Some] by simp
        have 1: "cache_inv c'" unfolding c' using i Some kv by (rule heap_upd_inv)
        have 2: "expire c' = expire c" by (simp add: c')
        have hk: "heartbeat_of c k = Some (heartbeat ?v)" using Some by (simp add: heartbeat_of_def)
        have ge: "3 * Second \<le> expire c" using gr True by auto
        have 3: "advances t now' c c'"
          unfolding advances_def
        proof (intro allI impI)
          fix k' h' assume h: "heartbeat_of c' k' = Some h'"
          show "h' \<le> now' \<and> (case heartbeat_of c k' of Some h \<Rightarrow> h \<le> h' | None \<Rightarrow> t \<le> h')"
          proof (cases "k' = k")
            case True
            then have "h' = heartbeat ?v + 3 * Second"
              using h unfolding c' heap_upd_heartbeat[OF i Some] by simp
            then show ?thesis using True hk ge T Second_pos by simp
          next
            case False
            then have "heartbeat_of c k' = Some h'"
              using h unfolding c' heap_upd_heartbeat[OF i Some] by simp
            then show ?thesis using nf t unfolding no_future_def by force
          qed
        qed
        show ?thesis using 1 2 3 by blast
      qed
    qed
  qed
  then show "cache_inv c'" and "expire c' = expire c" and "advances t now' c c'" by blast+
qed

lemma advances_no_future: "advances t t' c c' \<Longrightarrow> no_future t' c'"
  unfolding advances_def no_future_def by blast

lemma step_advances:
  assumes i: "cache_inv c" and gr: "expire c = 0 \<or> 3 * Second \<le> expire c"
    and nf: "no_future t c" and ok: "ev_ok t ev" and s: "step ev c = Inr c'"
  shows "cache_inv c'" and "expire c' = expire c" and "advances t (ev_end t ev) c c'"
proof -
  have "cache_inv c' \<and> expire c' = expire c \<and> advances t (ev_end t ev) c c'"
  proof (cases ev)
    case (EvPut k v now)
    then have c': "c' = Put k v now c" and t: "t \<le> now" using s ok by simp_all
    show ?thesis using i kept_advances[OF kept_Put[OF i] nf t order_refl]
      by (simp add: c' EvPut inv_Put Put_config)
  next
    case (EvGet k now now')
    then obtain r started where g: "Get k now now' quiet c = Inr (r, c', started)"
      using s by (auto split: sum.splits)
    have t: "t \<le> now" "now \<le> now'" using ok EvGet by simp_all
    show ?thesis using Get_step[OF i g gr nf t] by (simp add: EvGet)
  next
    case (EvRefresh k now)
    then have g: "upValue_go k now c = Inr c'" and t: "t \<le> now" using s ok by simp_all
    show ?thesis using upValue_go_step[OF i g] kept_advances[OF _ nf t order_refl]
      by (simp add: EvRefresh)
  next
    case (EvSweep now)
    then have c': "c' = clearExpired now c" and t: "t \<le> now" using s ok by simp_all
    have "expire (clearExpired now c) = expire c"
      by (simp add: clearExpired_def clearExpired_loop_fields)
    then show ?thesis
      using conjunct2[OF clearExpired_result[OF i]] kept_advances[OF kept_sweep[OF i] nf t order_refl]
      by (simp add: c' EvSweep)
  next
    case (EvDel k)
    then have c': "c' = Del k c" using s by simp
    have "expire (Del k c) = expire c" by (simp add: Del_def split: option.splits)
    then show ?thesis
      using inv_Del[OF i] kept_advances[OF kept_Del nf order_refl order_refl]
      by (simp add: c' EvDel)
  next
    case EvClear
    then have c': "c' = Clear c" using s by simp
    show ?thesis
      using inv_Clear kept_advances[OF kept_Clear nf order_refl order_refl]
      by (simp add: c' EvClear Clear_def)
  qed
  then show "cache_inv c'" and "expire c' = expire c" and "advances t (ev_end t ev) c c'"
    by blast+
qed

lemma advances_trans:
  assumes a: "advances t t' c c'" and b: "advances t' t'' c' c''"
    and nf: "no_future t c" and le: "t \<le> t'"
  shows "advances t t'' c c''"
  unfolding advances_def
proof (intro allI impI)
  fix k h'' assume h: "heartbeat_of c'' k = Some h''"
  have b': "h'' \<le> t''" "case heartbeat_of c' k of Some h \<Rightarrow> h \<le> h'' | None \<Rightarrow> t' \<le> h''"
    using b h unfolding advances_def by blast+
  have "case heartbeat_of c k of Some h \<Rightarrow> h \<le> h'' | None \<Rightarrow> t \<le> h''"
  proof (cases "heartbeat_of c' k")
    case None
    then have 1: "t' \<le> h''" using b' by simp
    show ?thesis
    proof (cases "heartbeat_of c k")
      case None
      then show ?thesis using 1 le by simp
    next
      case (Some h0)
      then have "h0 \<le> t" using nf unfolding no_future_def by blast
      then show ?thesis using Some 1 le by simp
    qed
  next
    case (Some h')
    then have 1: "h' \<le> h''" using b' by simp
    have "case heartbeat_of c k of Some h \<Rightarrow> h \<le> h' | None \<Rightarrow> t \<le> h'"
      using a Some unfolding advances_def by blast
    then show ?thesis using 1 by (cases "heartbeat_of c k") auto
  qed
  then show "h'' \<le> t'' \<and> (case heartbeat_of c k of Some h \<Rightarrow> h \<le> h'' | None \<Rightarrow> t \<le> h'')"
    using b' by blast
qed

lemma run_advances:
  assumes "cache_inv c" and "expire c = 0 \<or> 3 * Second \<le> expire c"
    and "no_future t c" and "chrono t evs" and "run evs c = Inr c'"
  shows "\<exists>t'. t \<le> t' \<and> advances t t' c c'"
  using assms
proof (induction evs arbitrary: c t)
  case Nil
  then have "c' = c" by simp
  then show ?case using kept_advances[OF kept_refl Nil.prems(3) order_refl order_refl] by blast
next
  case (Cons ev evs)
  from Cons.prems(5) obtain c1 where s: "step ev c = Inr c1" and r: "run evs c1 = Inr c'"
    by (auto split: sum.splits)
  have ok: "ev_ok t ev" and ch: "chrono (ev_end t ev) evs" using Cons.prems(4) by simp_all
  note st = step_advances[OF Cons.prems(1,2,3) ok s]
  have gr1: "expire c1 = 0 \<or> 3 * Second \<le> expire c1" using Cons.prems(2) st(2) by simp
  have nf1: "no_future (ev_end t ev) c1" using st(3) by (rule advances_no_future)
  from Cons.IH[OF st(1) gr1 nf1 ch r]
  obtain t' where t': "ev_end t ev \<le> t'" "advances (ev_end t ev) t' c1 c'" by blast
  have "advances t t' c c'"
    using st(3) t'(2) Cons.prems(3) ev_end_ge[OF ok] by (rule advances_trans)
  moreover have "t \<le> t'" using ev_end_ge[OF ok] t'(1) by simp
  ultimately show ?case by blast
qed

lemma heartbeat_afterD:
  "heartbeat_after evs c k = Some h \<Longrightarrow> \<exists>c'. run evs c = Inr c' \<and> heartbeat_of c' k = Some h"
  by (auto simp: heartbeat_after_def split: sum.splits)

section \<open>Loads and their waiters\<close>

lemma Put_heap_existing:
  assumes "map_of (data c) k = Some e"
  shows "heap (Put k v now c) e = (heap c e)\<lparr>value' := v, heartbeat := now\<rparr>"
  using assms by (simp add: Put_def Put_evict_config Put_write_def)

lemma upValue_go_eq:
  "upfunc c = Some f \<Longrightarrow>
   upValue_go k now c =
     Inr (if snd (f k) = 0 then Put k (fst (f k)) now (c\<lparr>loads := Suc (loads c)\<rparr>)
          else c\<lparr>loads := Suc (loads c)\<rparr>)"
  by (simp add: upValue_go_def Let_def)

lemma getData_enter_new:
  assumes "map_of (case g_m c of None \<Rightarrow> [] | Some m1 \<Rightarrow> m1) k = None"
  shows "getData_enter k c =
           (Loads (nextCall c),
            c\<lparr> calls := (calls c)(nextCall c := \<lparr>wg = 1, val = None, ret = 0\<rparr>),
               nextCall := Suc (nextCall c),
               g_m := Some (AList.update k (nextCall c)
                              (case g_m c of None \<Rightarrow> [] | Some m1 \<Rightarrow> m1)) \<rparr>)"
  using assms by (simp add: getData_enter_def Let_def)

lemma getData_enter_registered:
  assumes "g_m c = Some m0" and "map_of m0 k = Some cr"
  shows "getData_enter k c = (Waits cr, c)"
proof -
  have "c\<lparr>g_m := Some m0\<rparr> = c" using assms(1) by (cases c) simp
  then show ?thesis using assms by (simp add: getData_enter_def Let_def)
qed

lemma acts_append:
  "acts (xs @ ys) c = (case acts xs c of Inl f \<Rightarrow> Inl f | Inr c' \<Rightarrow> acts ys c')"
  by (induction xs arbitrary: c) (auto split: sum.splits)

lemma acts_enter_registered:
  assumes "g_m c = Some m0" and "map_of m0 k = Some cr"
  shows "acts (replicate i (Enter k)) c = Inr c"
  by (induction i) (simp_all add: getData_enter_registered[OF assms])

lemma getData_load_eq:
  assumes u: "upfunc c = Some f" and w: "wg (calls c cr) \<noteq> 0"
  shows "getData_load k cr now c =
           Inr (f k,
                (if snd (f k) = 0 then Put k (fst (f k)) now c else c)
                  \<lparr> g_m := map_option (AList.delete k) (g_m c),
                     calls := (calls c)(cr := (calls c cr)\<lparr>wg := wg (calls c cr) - 1,
                                                val := fst (f k), ret := snd (f k)\<rparr>),
                     loads := Suc (loads c) \<rparr>)"
  using u w
  by (auto simp: getData_load_def Let_def Put_aux Put_config prod_eq_iff
      intro!: Cache.equality call.equality)

lemma getData_first:
  assumes u: "upfunc c = Some f"
    and n: "map_of (case g_m c of None \<Rightarrow> [] | Some m1 \<Rightarrow> m1) k = None"
  shows "getData_enter k c = (Loads (nextCall c), registered k c)"
    and "getData_enter k (registered k c) = (Waits (nextCall c), registered k c)"
    and "acts (replicate i (Enter k)) (registered k c) = Inr (registered k c)"
    and "upfunc (registered k c) = Some f"
    and "map_of (case g_m (registered k c) of None \<Rightarrow> [] | Some m1 \<Rightarrow> m1) k = Some (nextCall c)"
    and "getData_load k (nextCall c) now (registered k c) = Inr (f k, loaded k f now c)"
    and "getData_wait (nextCall c) (loaded k f now c) = Inr (f k)"
    and "act (Enter k) c = Inr (registered k c)"
    and "act (Finish k now) (registered k c) = Inr (loaded k f now c)"
proof -
  let ?m0 = "case g_m c of None \<Rightarrow> [] | Some m1 \<Rightarrow> m1"
  show e: "getData_enter k c = (Loads (nextCall c), registered k c)"
    by (simp add: getData_enter_new[OF n])
  have g1: "g_m (registered k c) = Some (AList.update k (nextCall c) ?m0)" by simp
  have r1: "map_of (AList.update k (nextCall c) ?m0) k = Some (nextCall c)"
    by (simp add: update_conv')
  show "getData_enter k (registered k c) = (Waits (nextCall c), registered k c)"
    using g1 r1 by (rule getData_enter_registered)
  show "acts (replicate i (Enter k)) (registered k c) = Inr (registered k c)"
    using g1 r1 by (rule acts_enter_registered)
  show u1: "upfunc (registered k c) = Some f" using u by simp
  show "map_of (case g_m (registered k c) of None \<Rightarrow> [] | Some m1 \<Rightarrow> m1) k = Some (nextCall c)"
    using r1 by (simp add: g1)
  have w1: "wg (calls (registered k c) (nextCall c)) \<noteq> 0" by simp
  show l: "getData_load k (nextCall c) now (registered k c) = Inr (f k, loaded k f now c)"
    unfolding getData_load_eq[OF u1 w1]
    by (auto simp: Put_aux Put_config register_remove[OF n]
        intro!: Cache.equality call.equality)
  show "getData_wait (nextCall c) (loaded k f now c) = Inr (f k)"
    by (simp add: getData_wait_def Put_config)
  show "act (Enter k) c = Inr (registered k c)"
    by (simp add: e)
  have "act (Finish k now) (registered k c) =
      (case getData_load k (nextCall c) now (registered k c) of
         Inl x \<Rightarrow> Inl x | Inr (r, c') \<Rightarrow> Inr c')"
    using r1 by simp
  then show "act (Finish k now) (registered k c) = Inr (loaded k f now c)"
    unfolding l by simp
qed

lemma getData_alone:
  assumes u: "upfunc c = Some f"
    and n: "map_of (case g_m c of None \<Rightarrow> [] | Some m1 \<Rightarrow> m1) k = None"
  shows "getData k now (replicate j (Enter k)) c = Inr (f k, loaded k f now c)"
  unfolding getData_def getData_first(1)[OF u n]
  by (simp add: getData_first(3)[OF u n] getData_first(6)[OF u n])

lemma getData_waiting:
  assumes u: "upfunc c = Some f"
    and n: "map_of (case g_m c of None \<Rightarrow> [] | Some m1 \<Rightarrow> m1) k = None"
  shows "getData k t (replicate j (Enter k) @ [Finish k now]) (registered k c)
           = Inr (f k, loaded k f now c)"
  unfolding getData_def getData_first(2)[OF u n]
  by (simp add: acts_append getData_first(3)[OF u n] getData_first(7)[OF u n]
      getData_first(9)[OF u n] del: act.simps)

lemma load_then_stored:
  assumes i: "cache_inv c" and m1: "maxKeyCount c \<noteq> 1"
    and u: "upfunc c = Some f"
    and n: "map_of (case g_m c of None \<Rightarrow> [] | Some m1 \<Rightarrow> m1) k = None"
  shows "getData k now [] c = Inr (f k, loaded k f now c)"
    and "snd (f k) = 0 \<Longrightarrow>
           \<exists>e. map_of (data (loaded k f now c)) k = Some e \<and>
               value' (heap (loaded k f now c) e) = fst (f k)"
    and "snd (f k) \<noteq> 0 \<Longrightarrow>
           data (loaded k f now c) = data c \<and> lru (loaded k f now c) = lru c \<and>
           heap (loaded k f now c) = heap c"
proof -
  show "getData k now [] c = Inr (f k, loaded k f now c)"
    using getData_alone[OF u n, of now 0] by simp
  show "\<exists>e. map_of (data (loaded k f now c)) k = Some e \<and>
               value' (heap (loaded k f now c) e) = fst (f k)" if s: "snd (f k) = 0"
  proof -
    from Put_keeps_key[OF i m1] obtain e where
      e: "map_of (data (Put k (fst (f k)) now c)) k = Some e" by blast
    have "heap (Put k (fst (f k)) now c) e = \<lparr>key = k, value' = fst (f k), heartbeat = now\<rparr>"
      using i e by (rule Put_stores)
    then show ?thesis using e s by simp
  qed
  show "data (loaded k f now c) = data c \<and> lru (loaded k f now c) = lru c \<and>
           heap (loaded k f now c) = heap c" if "snd (f k) \<noteq> 0"
    using that by simp
qed

section \<open>The claims\<close>

subsection \<open>The size bound\<close>

text \<open>
  C1. With a maximum of M entries, M + K distinct keys put into an empty cache should
  leave M entries, the K least recently touched ones evicted. \<open>Put\<close> evicts as soon as
  the size reaches the maximum (line 164 compares with \<^verbatim>\<open>>=\<close>, where the comment of
  \<^verbatim>\<open>SetMaxKeyCount\<close> says \<^verbatim>\<open>>\<close>): with M = 2 and the keys a, b, c put in this order,
  one entry is left, c, and both a and b have been evicted. (\<open>Put_below_max\<close> above:
  the size stays below the maximum, whatever the keys.)
\<close>

theorem C1_three_keys_max_two:
  "Len (Put ''c'' (Some ''3'') 2 (Put ''b'' (Some ''2'') 1 (Put ''a'' (Some ''1'') 0
     (SetMaxKeyCount 2 (New :: (string, string) Cache))))) = 1
   \<and> map fst (data (Put ''c'' (Some ''3'') 2 (Put ''b'' (Some ''2'') 1 (Put ''a'' (Some ''1'') 0
     (SetMaxKeyCount 2 (New :: (string, string) Cache)))))) = [''c'']"
  by (simp add: cache_ops list_ops)

subsection \<open>Put, then Get\<close>

text \<open>
  C2. \<open>Put k v\<close> followed by \<open>Get k\<close> before the time-to-live has elapsed should return
  \<open>v\<close> with status 0. With a maximum of one entry the \<open>Put\<close> evicts the entry it has
  just written (the same comparison at line 164), and the \<open>Get\<close> that follows at the same
  instant finds nothing: it returns \<^verbatim>\<open>nil\<close> with status -1. (\<open>Put_then_Get\<close> above:
  with any other maximum the value is returned with status 0.)
\<close>

theorem C2_put_get_max_one:
  "Get ''a'' 0 0 quiet (Put ''a'' (Some ''1'') 0 (SetMaxKeyCount 1 (New :: (string, string) Cache)))
     = Inr ((None, - 1),
            Put ''a'' (Some ''1'') 0 (SetMaxKeyCount 1 (New :: (string, string) Cache)), [])"
  by (simp add: Get_def quiet_def cache_ops list_ops)

subsection \<open>One eviction for each Put\<close>

text \<open>
  C3, as amended. Whatever the size of the store and whatever the maximum, \<open>Put\<close>
  removes at most one entry, never a batch: the cache it returns is either the one the
  write left, or that one with the element at the back of the list removed, with its
  key, and nothing else. Where the store is larger than a positive maximum after the
  write, by however much, one entry is removed. And a store that holds no more entries
  than a positive maximum before a \<open>Put\<close> holds no more than the maximum after it. (A
  store that is larger than the maximum, because the maximum was set or lowered later,
  stays larger: see the counterexample.)
\<close>

theorem C3_put_single_eviction:
  assumes i: "cache_inv c"
  shows "(Put k v now c = Put_write k v now c \<or>
          (lru (Put_write k v now c) \<noteq> [] \<and>
           Put k v now c =
             (Put_write k v now c)
               \<lparr>lru := butlast (lru (Put_write k v now c)),
                data := AList.delete
                  (key (heap (Put_write k v now c) (last (lru (Put_write k v now c)))))
                  (data (Put_write k v now c))\<rparr> \<and>
           Suc (Len (Put k v now c)) = Len (Put_write k v now c)))
         \<and> (0 < maxKeyCount c \<and> maxKeyCount c < int (Len (Put_write k v now c)) \<longrightarrow>
              Suc (Len (Put k v now c)) = Len (Put_write k v now c))
         \<and> (0 < maxKeyCount c \<and> int (Len c) \<le> maxKeyCount c \<longrightarrow>
              int (Len (Put k v now c)) \<le> maxKeyCount c)"
proof -
  let ?w = "Put_write k v now c"
  have iw: "cache_inv ?w" using i by (rule inv_Put_write)
  have lw: "length (data ?w) \<le> Suc (length (data c))"
    by (simp add: Put_write_length split: option.split)
  show ?thesis
  proof (cases "maxKeyCount ?w > 0 \<and> int (length (data ?w)) \<ge> maxKeyCount ?w")
    case False
    then have "Put_evict ?w = ?w" by (rule Put_evict_skip)
    then show ?thesis using False by (auto simp: Put_def Len_def Put_write_config)
  next
    case True
    then have t: "maxKeyCount ?w > 0" "int (length (data ?w)) \<ge> maxKeyCount ?w" by simp_all
    note f = Put_evict_fire[OF iw t]
    have 1: "Put k v now c = ?w\<lparr>lru := butlast (lru ?w),
                data := AList.delete (key (heap ?w (last (lru ?w)))) (data ?w)\<rparr>"
      using f(2) by (simp add: Put_def)
    have 2: "Suc (Len (Put k v now c)) = Len ?w" using f(3) by (simp add: Put_def Len_def)
    have 3: "0 < maxKeyCount c \<and> int (Len c) \<le> maxKeyCount c \<longrightarrow>
              int (Len (Put k v now c)) \<le> maxKeyCount c"
      using 2 lw by (simp add: Len_def)
    show ?thesis using f(1) 1 2 3 by blast
  qed
qed

theorem C3_put_single_eviction_witness:
  "cache_inv (Put ''a'' (Some ''1'') 0 (SetMaxKeyCount 2 (New :: (string, string) Cache))) \<and>
   maxKeyCount (Put ''a'' (Some ''1'') 0 (SetMaxKeyCount 2 (New :: (string, string) Cache))) = 2 \<and>
   Len (Put ''a'' (Some ''1'') 0 (SetMaxKeyCount 2 (New :: (string, string) Cache))) = 1 \<and>
   int (Len (Put ''b'' (Some ''2'') 1
          (Put ''a'' (Some ''1'') 0 (SetMaxKeyCount 2 (New :: (string, string) Cache))))) \<le> 2 \<and>
   cache_inv (SetMaxKeyCount 1 (Put ''c'' (Some ''3'') 2 (Put ''b'' (Some ''2'') 1
          (Put ''a'' (Some ''1'') 0 (New :: (string, string) Cache))))) \<and>
   maxKeyCount (SetMaxKeyCount 1 (Put ''c'' (Some ''3'') 2 (Put ''b'' (Some ''2'') 1
          (Put ''a'' (Some ''1'') 0 (New :: (string, string) Cache))))) = 1 \<and>
   Len (Put_write ''d'' (Some ''4'') 3 (SetMaxKeyCount 1 (Put ''c'' (Some ''3'') 2
          (Put ''b'' (Some ''2'') 1 (Put ''a'' (Some ''1'') 0 (New :: (string, string) Cache))))))
     = 4 \<and>
   Len (Put ''d'' (Some ''4'') 3 (SetMaxKeyCount 1 (Put ''c'' (Some ''3'') 2
          (Put ''b'' (Some ''2'') 1 (Put ''a'' (Some ''1'') 0 (New :: (string, string) Cache))))))
     = 3"
proof -
  let ?c = "Put ''a'' (Some ''1'') 0 (SetMaxKeyCount 2 (New :: (string, string) Cache))"
  let ?d = "SetMaxKeyCount 1 (Put ''c'' (Some ''3'') 2 (Put ''b'' (Some ''2'') 1
          (Put ''a'' (Some ''1'') 0 (New :: (string, string) Cache))))"
  have i: "cache_inv ?c" by (intro inv_Put inv_SetMaxKeyCount inv_New)
  have j: "cache_inv ?d" by (intro inv_Put inv_SetMaxKeyCount inv_New)
  have m: "maxKeyCount ?c = 2" "Len ?c = 1" by (simp_all add: cache_ops list_ops)
  have n: "maxKeyCount ?d = 1" "Len (Put_write ''d'' (Some ''4'') 3 ?d) = 4"
    by (simp_all add: cache_ops list_ops)
  note t1 = C3_put_single_eviction[OF i, of "''b''" "Some ''2''" 1]
  note t2 = C3_put_single_eviction[OF j, of "''d''" "Some ''4''" 3]
  have a: "int (Len (Put ''b'' (Some ''2'') 1 ?c)) \<le> 2" using t1 m by simp
  have "Suc (Len (Put ''d'' (Some ''4'') 3 ?d)) = Len (Put_write ''d'' (Some ''4'') 3 ?d)"
    using t2 n by simp
  then have b: "Len (Put ''d'' (Some ''4'') 3 ?d) = 3" using n(2) by simp
  show ?thesis using i j m n a b by blast
qed

text \<open>
  The claim as stated fails for a cache filled before the maximum is set: with a, b
  stored and the maximum then set to 1, putting c leaves two entries.
\<close>

theorem C3_counterexample:
  "maxKeyCount (Put ''c'' (Some ''3'') 2 (SetMaxKeyCount 1
      (Put ''b'' (Some ''2'') 1 (Put ''a'' (Some ''1'') 0 (New :: (string, string) Cache))))) = 1
   \<and> Len (Put ''c'' (Some ''3'') 2 (SetMaxKeyCount 1
      (Put ''b'' (Some ''2'') 1 (Put ''a'' (Some ''1'') 0 (New :: (string, string) Cache))))) = 2"
  by (simp add: cache_ops list_ops)

subsection \<open>The heartbeat of a key\<close>

text \<open>
  C4, as amended. Take a cache whose time-to-live is not configured or is at least the
  three seconds of the grace window, with no heartbeat later than the clock, and any run
  of \<open>Put\<close>, \<open>Get\<close>, refresh write-back, sweep, \<open>Del\<close> and \<open>Clear\<close> whose readings of
  the clock never go back. Then the heartbeat a key has after the run is not earlier
  than the one it had before. (With a shorter time-to-live the grace window sets the
  heartbeat ahead of the clock, and the write that follows sets it back: see the
  counterexample.)
\<close>

theorem C4_heartbeat_monotone:
  assumes "cache_inv c" and "expire c = 0 \<or> 3 * Second \<le> expire c"
    and "no_future t c" and "chrono t evs" and "run evs c = Inr c'"
    and "heartbeat_of c k = Some h" and "heartbeat_of c' k = Some h'"
  shows "h \<le> h'"
proof -
  from run_advances[OF assms(1-5)] obtain t' where "advances t t' c c'" by blast
  then show ?thesis using assms(6,7) unfolding advances_def by force
qed

theorem C4_heartbeat_monotone_witness:
  "cache_inv (Put ''key1'' (Some ''old'') 0 (SetUpFunc GetDataSucc (SetExpire (3 * Second) New))) \<and>
   expire (Put ''key1'' (Some ''old'') 0 (SetUpFunc GetDataSucc (SetExpire (3 * Second) New)))
     = 3 * Second \<and>
   no_future 0 (Put ''key1'' (Some ''old'') 0 (SetUpFunc GetDataSucc (SetExpire (3 * Second) New))) \<and>
   chrono 0 [EvGet ''key1'' (4 * Second) (4 * Second), EvRefresh ''key1'' (5 * Second)] \<and>
   heartbeat_of (Put ''key1'' (Some ''old'') 0 (SetUpFunc GetDataSucc (SetExpire (3 * Second) New)))
     ''key1'' = Some 0 \<and>
   heartbeat_after [EvGet ''key1'' (4 * Second) (4 * Second), EvRefresh ''key1'' (5 * Second)]
     (Put ''key1'' (Some ''old'') 0 (SetUpFunc GetDataSucc (SetExpire (3 * Second) New)))
     ''key1'' = Some (5 * Second) \<and>
   (0 :: int) \<le> 5 * Second"
proof -
  let ?c = "Put ''key1'' (Some ''old'') 0 (SetUpFunc GetDataSucc (SetExpire (3 * Second) New))"
  let ?evs = "[EvGet ''key1'' (4 * Second) (4 * Second), EvRefresh ''key1'' (5 * Second)]"
  have i: "cache_inv ?c" by (intro inv_Put inv_SetUpFunc inv_SetExpire inv_New)
  have x: "expire ?c = 3 * Second" by (simp add: cache_ops list_ops)
  then have g: "expire ?c = 0 \<or> 3 * Second \<le> expire ?c" by simp
  have h0: "heartbeat_of ?c ''key1'' = Some 0" by (simp add: heartbeat_of_def cache_ops list_ops)
  have nf: "no_future 0 ?c"
    by (simp add: no_future_def heartbeat_of_def cache_ops list_ops)
  have ch: "chrono 0 ?evs" by (simp add: Second_def)
  have ha: "heartbeat_after ?evs ?c ''key1'' = Some (5 * Second)"
    by (simp add: run_ops cache_ops list_ops)
  from heartbeat_afterD[OF ha]
  obtain c' where r: "run ?evs ?c = Inr c'" and h': "heartbeat_of c' ''key1'' = Some (5 * Second)"
    by (elim exE conjE)
  have "(0 :: int) \<le> 5 * Second" using i g nf ch r h0 h' by (rule C4_heartbeat_monotone)
  then show ?thesis using i x nf ch h0 ha by blast
qed

text \<open>
  With a time-to-live of one second: the entry is written at 0, \<open>Get\<close> at 2 s finds it
  expired and sets the heartbeat to 3 s, and the refresh writes back at 2 s.
\<close>

theorem C4_counterexample:
  "chrono 0 [EvGet ''key1'' (2 * Second) (2 * Second), EvRefresh ''key1'' (2 * Second)] \<and>
   heartbeat_after [EvGet ''key1'' (2 * Second) (2 * Second)]
     (Put ''key1'' (Some ''old'') 0 (SetUpFunc GetDataSucc (SetExpire Second New)))
     ''key1'' = Some (3 * Second) \<and>
   heartbeat_after [EvGet ''key1'' (2 * Second) (2 * Second), EvRefresh ''key1'' (2 * Second)]
     (Put ''key1'' (Some ''old'') 0 (SetUpFunc GetDataSucc (SetExpire Second New)))
     ''key1'' = Some (2 * Second)"
  by (simp add: run_ops cache_ops list_ops)

subsection \<open>Get on an expired entry, with a loader\<close>

text \<open>
  C5, as amended. \<open>Get\<close> finds the entry of \<open>k\<close> expired at its first reading of the
  clock and a loader is configured. Run alone, it finds the entry still expired under
  the write lock, moves the heartbeat forward by three seconds, starts the refresh of
  \<open>k\<close> and returns the stale value with status 0; the loader has not run when it
  returns. It reads the value it returns after it has released the lock: if the
  refresh it has started runs first (the goroutine of \<open>upValue\<close>, at time \<open>t\<close>), it
  returns the value of the loader when the loader's status is 0, and the stale value
  otherwise. And if an earlier refresh of \<open>k\<close> has written between the first reading
  and the lock, so that the entry is no longer expired under the lock, the heartbeat is
  not moved and no refresh is started.
\<close>

theorem C5_stale_get_with_loader:
  assumes m: "map_of (data c) k = Some e" and x: "expire c \<noteq> 0"
    and s: "heartbeat (heap c e) + expire c < now" and le: "now \<le> now'"
    and u: "upfunc c = Some f"
  shows
    "Get k now now' quiet c =
       Inr ((value' (heap c e), 0),
            c\<lparr>heap := (heap c)(e := (heap c e)\<lparr>heartbeat := heartbeat (heap c e) + 3 * Second\<rparr>)\<rparr>,
            [k])
     \<and> Get k now now' (quiet\<lparr>after_unlock := [Refresh k t]\<rparr>) c =
         Inr ((if snd (f k) = 0 then fst (f k) else value' (heap c e), 0),
              (if snd (f k) = 0
               then Put k (fst (f k)) t
                      (c\<lparr>heap := (heap c)(e := (heap c e)
                              \<lparr>heartbeat := heartbeat (heap c e) + 3 * Second\<rparr>),
                         loads := Suc (loads c)\<rparr>)
               else c\<lparr>heap := (heap c)(e := (heap c e)
                              \<lparr>heartbeat := heartbeat (heap c e) + 3 * Second\<rparr>),
                      loads := Suc (loads c)\<rparr>),
              [k])
     \<and> (snd (f k) = 0 \<and> \<not> t + expire c < now' \<longrightarrow>
          Get k now now' (quiet\<lparr>before_lock := [Refresh k t]\<rparr>) c =
            Inr ((fst (f k), 0), Put k (fst (f k)) t (c\<lparr>loads := Suc (loads c)\<rparr>), []))"
proof -
  let ?p = "c\<lparr>heap := (heap c)(e := (heap c e)\<lparr>heartbeat := heartbeat (heap c e) + 3 * Second\<rparr>)\<rparr>"
  have s': "heartbeat (heap c e) + expire c < now'" using s le by simp
  have 1: "Get k now now' quiet c = Inr ((value' (heap c e), 0), ?p, [k])"
    using m x s s' u by (simp add: Get_def quiet_def Let_def upValue_def)
  have up: "upfunc ?p = Some f" and mp: "map_of (data ?p) k = Some e" using u m by simp_all
  have 2: "Get k now now' (quiet\<lparr>after_unlock := [Refresh k t]\<rparr>) c =
         Inr ((if snd (f k) = 0 then fst (f k) else value' (heap c e), 0),
              (if snd (f k) = 0 then Put k (fst (f k)) t (?p\<lparr>loads := Suc (loads c)\<rparr>)
               else ?p\<lparr>loads := Suc (loads c)\<rparr>),
              [k])"
    using m x s s' u
    by (simp add: Get_def quiet_def Let_def upValue_def upValue_go_eq[OF up]
        Put_heap_existing Put_aux)
  have uc: "upfunc (c\<lparr>loads := Suc (loads c)\<rparr>) = Some f"
    and mc: "map_of (data (c\<lparr>loads := Suc (loads c)\<rparr>)) k = Some e" using u m by simp_all
  have 3: "snd (f k) = 0 \<and> \<not> t + expire c < now' \<longrightarrow>
          Get k now now' (quiet\<lparr>before_lock := [Refresh k t]\<rparr>) c =
            Inr ((fst (f k), 0), Put k (fst (f k)) t (c\<lparr>loads := Suc (loads c)\<rparr>), [])"
    using m x s u
    by (simp add: Get_def quiet_def Let_def upValue_def upValue_go_eq[OF u]
        Put_heap_existing[OF mc] Put_config)
  show ?thesis using 1 2 3 by simp
qed

theorem C5_stale_get_with_loader_witness:
  "map_of (data (Put ''key1'' (Some ''old'') 0 (SetUpFunc GetDataSucc (SetExpire Second New))))
      ''key1'' = Some 0 \<and>
   expire (Put ''key1'' (Some ''old'') 0 (SetUpFunc GetDataSucc (SetExpire Second New))) = Second \<and>
   heartbeat (heap (Put ''key1'' (Some ''old'') 0 (SetUpFunc GetDataSucc (SetExpire Second New))) 0)
      = 0 \<and>
   upfunc (Put ''key1'' (Some ''old'') 0 (SetUpFunc GetDataSucc (SetExpire Second New)))
      = Some GetDataSucc \<and>
   Get ''key1'' (2 * Second) (2 * Second) quiet
       (Put ''key1'' (Some ''old'') 0 (SetUpFunc GetDataSucc (SetExpire Second New)))
     = Inr ((Some ''old'', 0),
            (Put ''key1'' (Some ''old'') 0 (SetUpFunc GetDataSucc (SetExpire Second New)))
              \<lparr>heap := (heap (Put ''key1'' (Some ''old'') 0
                                (SetUpFunc GetDataSucc (SetExpire Second New))))
                 (0 := \<lparr>key = ''key1'', value' = Some ''old'', heartbeat = 3 * Second\<rparr>)\<rparr>,
            [''key1'']) \<and>
   returned (Get ''key1'' (2 * Second) (2 * Second)
               (quiet\<lparr>after_unlock := [Refresh ''key1'' (2 * Second)]\<rparr>)
               (Put ''key1'' (Some ''old'') 0 (SetUpFunc GetDataSucc (SetExpire Second New))))
     = Inr (Some ''key1_value'', 0) \<and>
   Get ''key1'' (2 * Second) (2 * Second) (quiet\<lparr>before_lock := [Refresh ''key1'' (2 * Second)]\<rparr>)
       (Put ''key1'' (Some ''old'') 0 (SetUpFunc GetDataSucc (SetExpire Second New)))
     = Inr ((Some ''key1_value'', 0),
            Put ''key1'' (Some ''key1_value'') (2 * Second)
              ((Put ''key1'' (Some ''old'') 0 (SetUpFunc GetDataSucc (SetExpire Second New)))
                 \<lparr>loads := 1\<rparr>),
            [])"
proof -
  let ?c = "Put ''key1'' (Some ''old'') 0 (SetUpFunc GetDataSucc (SetExpire Second New))"
  have m: "map_of (data ?c) ''key1'' = Some 0" by (simp add: cache_ops list_ops)
  have x: "expire ?c \<noteq> 0" and x': "expire ?c = Second" by (simp_all add: cache_ops list_ops Second_def)
  have u: "upfunc ?c = Some GetDataSucc" by (simp add: cache_ops list_ops)
  have h: "heap ?c 0 = \<lparr>key = ''key1'', value' = Some ''old'', heartbeat = 0\<rparr>"
    by (simp add: cache_ops list_ops)
  have l: "loads ?c = 0" by (simp add: cache_ops list_ops)
  have s: "heartbeat (heap ?c 0) + expire ?c < 2 * Second" unfolding h x' by (simp add: Second_def)
  have n: "\<not> 2 * Second + expire ?c < 2 * Second" unfolding x' by (simp add: Second_def)
  have g: "snd (GetDataSucc ''key1'') = 0" "fst (GetDataSucc ''key1'') = Some ''key1_value''"
    by (simp_all add: GetDataSucc_def)
  have hb: "heartbeat (heap ?c 0) = 0" by (simp add: h)
  note t = C5_stale_get_with_loader[OF m x s order_refl u, of "2 * Second"]
  have 1: "Get ''key1'' (2 * Second) (2 * Second) quiet ?c
     = Inr ((Some ''old'', 0),
            ?c\<lparr>heap := (heap ?c)
                 (0 := \<lparr>key = ''key1'', value' = Some ''old'', heartbeat = 3 * Second\<rparr>)\<rparr>,
            [''key1''])"
    using t by (simp add: h)
  have 2: "returned (Get ''key1'' (2 * Second) (2 * Second)
               (quiet\<lparr>after_unlock := [Refresh ''key1'' (2 * Second)]\<rparr>) ?c)
     = Inr (Some ''key1_value'', 0)"
    using t g by (simp add: returned_def)
  have 3: "Get ''key1'' (2 * Second) (2 * Second) (quiet\<lparr>before_lock := [Refresh ''key1'' (2 * Second)]\<rparr>) ?c
     = Inr ((Some ''key1_value'', 0),
            Put ''key1'' (Some ''key1_value'') (2 * Second) (?c\<lparr>loads := 1\<rparr>), [])"
    using t g n by (simp add: l)
  show ?thesis using m x' hb u 1 2 3 by blast
qed

text \<open>
  The value returned is not always the stale one: written ``old'' at 0 with a
  time-to-live of one second, read at 2 s, with the refresh started by this very
  \<open>Get\<close> running before line 130, the call returns the value of the loader.
\<close>

theorem C5_counterexample:
  "map_of (data (Put ''key1'' (Some ''old'') 0 (SetUpFunc GetDataSucc (SetExpire Second New))))
      ''key1'' = Some 0 \<and>
   value' (heap (Put ''key1'' (Some ''old'') 0 (SetUpFunc GetDataSucc (SetExpire Second New))) 0)
      = Some ''old'' \<and>
   returned (Get ''key1'' (2 * Second) (2 * Second)
               (quiet\<lparr>after_unlock := [Refresh ''key1'' (2 * Second)]\<rparr>)
               (Put ''key1'' (Some ''old'') 0 (SetUpFunc GetDataSucc (SetExpire Second New))))
      = Inr (Some ''key1_value'', 0)"
  by (simp add: obs run_ops cache_ops list_ops)

subsection \<open>Get on an expired entry, without a loader\<close>

text \<open>
  C6. \<open>Get\<close> finds the entry of \<open>k\<close> expired and no loader is configured. It returns
  the value stored for \<open>k\<close>, which is the last one written, with status -1, and the
  cache is unchanged.
\<close>

theorem C6_stale_get_without_loader:
  assumes "map_of (data c) k = Some e" and "expire c \<noteq> 0"
    and "heartbeat (heap c e) + expire c < now" and "upfunc c = None"
  shows "Get k now now' quiet c = Inr ((value' (heap c e), - 1), c, [])"
  using assms by (simp add: Get_def quiet_def Let_def)

theorem C6_stale_get_without_loader_witness:
  "map_of (data (Put ''a'' (Some ''1'') 0 (SetExpire Second New))) ''a'' = Some 0 \<and>
   expire (Put ''a'' (Some ''1'') 0 (SetExpire Second New)) = Second \<and>
   heartbeat (heap (Put ''a'' (Some ''1'') 0 (SetExpire Second New)) 0) = 0 \<and>
   upfunc (Put ''a'' (Some ''1'') 0 (SetExpire Second (New :: (string, string) Cache))) = None \<and>
   Get ''a'' 1500000000 1500000000 quiet (Put ''a'' (Some ''1'') 0 (SetExpire Second New))
     = Inr ((Some ''1'', - 1), Put ''a'' (Some ''1'') 0 (SetExpire Second New), [])"
proof -
  let ?c = "Put ''a'' (Some ''1'') 0 (SetExpire Second (New :: (string, string) Cache))"
  have m: "map_of (data ?c) ''a'' = Some 0" by (simp add: cache_ops list_ops)
  have x: "expire ?c \<noteq> 0" and x': "expire ?c = Second" by (simp_all add: cache_ops list_ops Second_def)
  have u: "upfunc ?c = None" by (simp add: cache_ops list_ops)
  have h: "heap ?c 0 = \<lparr>key = ''a'', value' = Some ''1'', heartbeat = 0\<rparr>"
    by (simp add: cache_ops list_ops)
  have s: "heartbeat (heap ?c 0) + expire ?c < 1500000000" unfolding h x' by (simp add: Second_def)
  have hb: "heartbeat (heap ?c 0) = 0" by (simp add: h)
  have "Get ''a'' 1500000000 1500000000 quiet ?c = Inr ((Some ''1'', - 1), ?c, [])"
    unfolding C6_stale_get_without_loader[OF m x s u, of 1500000000] by (simp add: h)
  then show ?thesis using m x' hb u by blast
qed

subsection \<open>The result of the loader\<close>


subsection \<open>One run of the sweep\<close>

text \<open>
  C8. One run of \<open>clearExpired\<close> at time \<open>now\<close>: with no time-to-live configured the
  cache is unchanged; otherwise the map and the list lose exactly the entries whose
  heartbeat plus the time-to-live is before \<open>now\<close>, every other entry stays, in its
  place, and the map and the list still hold the same elements.
\<close>

theorem C8_sweep_removes_expired:
  assumes "cache_inv c"
  shows "clearExpired now c =
           (if expire c = 0 then c
            else c\<lparr>data := filter (\<lambda>p. \<not> heartbeat (heap c (snd p)) + expire c < now) (data c),
                   lru := filter (\<lambda>e. \<not> heartbeat (heap c e) + expire c < now) (lru c)\<rparr>)
         \<and> cache_inv (clearExpired now c)"
  using assms by (rule clearExpired_result)

theorem C8_sweep_removes_expired_witness:
  "cache_inv (Put ''b'' (Some ''2'') 1200000000 (Put ''a'' (Some ''1'') 0
      (SetExpire Second (New :: (string, string) Cache)))) \<and>
   map fst (data (Put ''b'' (Some ''2'') 1200000000 (Put ''a'' (Some ''1'') 0
      (SetExpire Second (New :: (string, string) Cache))))) = [''a'', ''b''] \<and>
   map fst (data (clearExpired 1500000000 (Put ''b'' (Some ''2'') 1200000000
      (Put ''a'' (Some ''1'') 0 (SetExpire Second (New :: (string, string) Cache)))))) = [''b''] \<and>
   lru (clearExpired 1500000000 (Put ''b'' (Some ''2'') 1200000000
      (Put ''a'' (Some ''1'') 0 (SetExpire Second (New :: (string, string) Cache))))) = [1]"
proof -
  let ?c = "Put ''b'' (Some ''2'') 1200000000 (Put ''a'' (Some ''1'') 0
      (SetExpire Second (New :: (string, string) Cache)))"
  have i: "cache_inv ?c" by (intro inv_Put inv_SetExpire inv_New)
  have d: "data ?c = [(''a'', 0), (''b'', 1)]" and l: "lru ?c = [1, 0]"
    and x: "expire ?c = 1000000000"
    and h: "heartbeat (heap ?c 0) = 0" "heartbeat (heap ?c (Suc 0)) = 1200000000"
    by (simp_all add: cache_ops list_ops Second_def)
  have "clearExpired 1500000000 ?c = ?c\<lparr>data := [(''b'', 1)], lru := [1]\<rparr>"
    using C8_sweep_removes_expired[OF i, of 1500000000] by (simp add: d l x h)
  then have "map fst (data (clearExpired 1500000000 ?c)) = [''b'']"
    and "lru (clearExpired 1500000000 ?c) = [1]" by simp_all
  moreover have "map fst (data ?c) = [''a'', ''b'']" by (simp add: d)
  ultimately show ?thesis using i by blast
qed

subsection \<open>Concurrent Gets on a key that is not stored\<close>

text \<open>
  C9, as amended. The key \<open>k\<close> is not stored, a loader is configured and no load of
  \<open>k\<close> is in flight. The first call to enter \<open>getData\<close> registers a load, runs the
  loader and returns its pair, however many others enter meanwhile. A call that enters
  while that load is registered (after the first one, with any number of others
  before and after it) waits, does not run the loader, and returns the pair of that
  load once it has been carried out; the cache it leaves is the one the first call
  leaves, in which the loader has run once. A call that has missed in the store but
  enters \<open>getData\<close> only after the load has been removed runs the loader again: the
  loader has then run twice.
\<close>

theorem C9_gets_coalesced:
  assumes u: "upfunc c = Some f"
    and n: "map_of (case g_m c of None \<Rightarrow> [] | Some m1 \<Rightarrow> m1) k = None"
    and m: "map_of (data c) k = None"
  shows "Get k now now' (quiet\<lparr>in_getData := replicate j (Enter k)\<rparr>) c
           = Inr (f k, loaded k f now c, [])
         \<and> Get k t t' (quiet\<lparr>after_lookup := Enter k # replicate i (Enter k),
                              in_getData := replicate j' (Enter k) @ [Finish k now]\<rparr>) c
           = Inr (f k, loaded k f now c, [])
         \<and> loads (loaded k f now c) = Suc (loads c)
         \<and> returned (Get k t t' (quiet\<lparr>after_lookup := [Enter k, Finish k now]\<rparr>) c)
           = Inr (f k)
         \<and> map_sum id loads
             (cache_after (Get k t t' (quiet\<lparr>after_lookup := [Enter k, Finish k now]\<rparr>) c))
           = Inr (Suc (Suc (loads c)))"
proof -
  note fl = getData_first[OF u n]
  have 1: "Get k now now' (quiet\<lparr>in_getData := replicate j (Enter k)\<rparr>) c
           = Inr (f k, loaded k f now c, [])"
    using m u by (simp add: Get_def quiet_def getData_alone[OF u n])
  have a: "acts (Enter k # replicate i (Enter k)) c = Inr (registered k c)"
    by (simp add: fl(8) fl(3) del: act.simps)
  have 2: "Get k t t' (quiet\<lparr>after_lookup := Enter k # replicate i (Enter k),
                              in_getData := replicate j' (Enter k) @ [Finish k now]\<rparr>) c
           = Inr (f k, loaded k f now c, [])"
    using m fl(4) by (simp add: Get_def quiet_def a getData_waiting[OF u n] del: acts.simps)
  have 3: "loads (loaded k f now c) = Suc (loads c)" by simp
  have b: "acts [Enter k, Finish k now] c = Inr (loaded k f now c)"
    by (simp add: fl(8) fl(9) del: act.simps)
  have u2: "upfunc (loaded k f now c) = Some f" using u by (simp add: Put_config)
  have n2: "map_of (case g_m (loaded k f now c) of None \<Rightarrow> [] | Some m1 \<Rightarrow> m1) k = None"
    using n by simp
  have g2: "getData k t [] (loaded k f now c) = Inr (f k, loaded k f t (loaded k f now c))"
    using getData_alone[OF u2 n2, of t 0] by simp
  have l: "Get k t t' (quiet\<lparr>after_lookup := [Enter k, Finish k now]\<rparr>) c
      = Inr (f k, loaded k f t (loaded k f now c), [])"
    using m u2 by (simp add: Get_def quiet_def b g2 del: acts.simps)
  have 4: "returned (Get k t t' (quiet\<lparr>after_lookup := [Enter k, Finish k now]\<rparr>) c) = Inr (f k)"
    by (simp add: l returned_def)
  have 5: "map_sum id loads
             (cache_after (Get k t t' (quiet\<lparr>after_lookup := [Enter k, Finish k now]\<rparr>) c))
           = Inr (Suc (Suc (loads c)))"
    by (simp add: l cache_after_def Put_config)
  show ?thesis using 1 2 3 4 5 by blast
qed

theorem C9_gets_coalesced_witness:
  "upfunc (SetUpFunc GetDataSucc New) = Some GetDataSucc \<and>
   g_m (SetUpFunc GetDataSucc New) = None \<and>
   map_of (data (SetUpFunc GetDataSucc New)) ''key1'' = None \<and>
   loads (SetUpFunc GetDataSucc New) = 0 \<and>
   returned (Get ''key1'' 0 0 (quiet\<lparr>in_getData := [Enter ''key1'', Enter ''key1'']\<rparr>)
               (SetUpFunc GetDataSucc New))
     = Inr (Some ''key1_value'', 0) \<and>
   returned (Get ''key1'' 0 0
               (quiet\<lparr>after_lookup := [Enter ''key1'', Enter ''key1''],
                      in_getData := [Finish ''key1'' 0]\<rparr>)
               (SetUpFunc GetDataSucc New))
     = Inr (Some ''key1_value'', 0) \<and>
   returned (Get ''key1'' 0 0
               (quiet\<lparr>after_lookup := [Enter ''key1''],
                      in_getData := [Enter ''key1'', Finish ''key1'' 0]\<rparr>)
               (SetUpFunc GetDataSucc New))
     = Inr (Some ''key1_value'', 0) \<and>
   map_sum id loads
     (cache_after (Get ''key1'' 0 0
               (quiet\<lparr>after_lookup := [Enter ''key1''],
                      in_getData := [Enter ''key1'', Finish ''key1'' 0]\<rparr>)
               (SetUpFunc GetDataSucc New)))
     = Inr 1"
proof -
  let ?c = "SetUpFunc GetDataSucc (New :: (string, string) Cache)"
  have u: "upfunc ?c = Some GetDataSucc" and g: "g_m ?c = None"
    and d: "map_of (data ?c) ''key1'' = None" and l: "loads ?c = 0"
    by (simp_all add: cache_ops)
  have n: "map_of (case g_m ?c of None \<Rightarrow> [] | Some m1 \<Rightarrow> m1) ''key1'' = None"
    by (simp add: g)
  have p: "GetDataSucc ''key1'' = (Some ''key1_value'', 0)" by (simp add: GetDataSucc_def)
  note t1 = C9_gets_coalesced[OF u n d, where now = 0 and now' = 0 and t = 0 and t' = 0
      and j = "Suc (Suc 0)" and i = "Suc 0" and j' = 0]
  note t2 = C9_gets_coalesced[OF u n d, where now = 0 and now' = 0 and t = 0 and t' = 0
      and j = 0 and i = 0 and j' = "Suc 0"]
  have a: "returned (Get ''key1'' 0 0 (quiet\<lparr>in_getData := [Enter ''key1'', Enter ''key1'']\<rparr>) ?c)
     = Inr (Some ''key1_value'', 0)"
    using t1 by (simp add: returned_def p)
  have b: "returned (Get ''key1'' 0 0
               (quiet\<lparr>after_lookup := [Enter ''key1'', Enter ''key1''],
                      in_getData := [Finish ''key1'' 0]\<rparr>) ?c)
     = Inr (Some ''key1_value'', 0)"
    using t1 by (simp add: returned_def p)
  have c: "returned (Get ''key1'' 0 0
               (quiet\<lparr>after_lookup := [Enter ''key1''],
                      in_getData := [Enter ''key1'', Finish ''key1'' 0]\<rparr>) ?c)
     = Inr (Some ''key1_value'', 0)"
    using t2 by (simp add: returned_def p)
  have e: "map_sum id loads
     (cache_after (Get ''key1'' 0 0
               (quiet\<lparr>after_lookup := [Enter ''key1''],
                      in_getData := [Enter ''key1'', Finish ''key1'' 0]\<rparr>) ?c))
     = Inr 1"
    using t2 by (simp add: cache_after_def l Put_config)
  show ?thesis using u g d l a b c e by blast
qed

text \<open>
  Two calls on the same key that is not stored: both miss in the store, the first runs
  \<open>getData\<close> from line 176 to line 199, then the second enters it. Both return the
  pair of the loader, and the loader has run twice.
\<close>

theorem C9_counterexample:
  "map_of (data (SetUpFunc GetDataSucc New)) ''key1'' = None \<and>
   g_m (SetUpFunc GetDataSucc New) = None \<and>
   loads (SetUpFunc GetDataSucc New) = 0 \<and>
   returned (Get ''key1'' 0 0 quiet (SetUpFunc GetDataSucc New))
     = Inr (Some ''key1_value'', 0) \<and>
   returned (Get ''key1'' 1 1 (quiet\<lparr>after_lookup := [Enter ''key1'', Finish ''key1'' 0]\<rparr>)
               (SetUpFunc GetDataSucc New))
     = Inr (Some ''key1_value'', 0) \<and>
   map_sum id loads
     (cache_after (Get ''key1'' 1 1 (quiet\<lparr>after_lookup := [Enter ''key1'', Finish ''key1'' 0]\<rparr>)
                     (SetUpFunc GetDataSucc New)))
     = Inr 2"
  by (simp add: obs run_ops cache_ops list_ops)

subsection \<open>Eviction on an update\<close>

text \<open>
  C10. A \<open>Put\<close> on a key that is already stored does not change the number of entries,
  yet with a positive maximum that the size has reached the element at the back of the
  list (as it stands after the key's element has moved to the front) is removed with
  its key. That is another key's entry, unless the updated entry is the only one, in
  which case the entry just updated is the one removed.
\<close>

theorem C10_update_put_evicts:
  assumes i: "cache_inv c" and m: "map_of (data c) k = Some e"
    and pos: "0 < maxKeyCount c" and ge: "maxKeyCount c \<le> int (Len c)"
  shows "lru (Put k v now c) = butlast (MoveToFront e (lru c)) \<and>
         data (Put k v now c) =
           AList.delete (key (heap c (last (MoveToFront e (lru c))))) (data c) \<and>
         Suc (Len (Put k v now c)) = Len c \<and>
         map_of (data (Put k v now c)) k = (if lru c = [e] then None else Some e)"
proof -
  let ?w = "Put_write k v now c"
  let ?l = "MoveToFront e (lru c)"
  have si: "store_inv (heap c) (nextElem c) (lru c) (data c)" using i by (simp add: cache_inv_def)
  note lk = store_inv_lookup[OF si m]
  have iw: "cache_inv ?w" using i by (rule inv_Put_write)
  have lw: "lru ?w = ?l" and dw: "data ?w = data c"
    and hw: "heap ?w = (heap c)(e := (heap c e)\<lparr>value' := v, heartbeat := now\<rparr>)"
    by (simp_all add: Put_write_def m)
  have kw: "key (heap ?w x) = key (heap c x)" for x by (simp add: hw)
  have t: "maxKeyCount ?w > 0" "int (length (data ?w)) \<ge> maxKeyCount ?w"
    using pos ge by (simp_all add: Put_write_config dw Len_def)
  note f = Put_evict_fire[OF iw t]
  have 1: "lru (Put k v now c) = butlast ?l" by (simp add: Put_def f(2) lw)
  have 2: "data (Put k v now c) = AList.delete (key (heap c (last ?l))) (data c)"
    by (simp add: Put_def f(2) lw dw kw)
  have 3: "Suc (Len (Put k v now c)) = Len c" using f(3) by (simp add: Put_def Len_def dw)
  have l: "?l = e # remove1 e (lru c)" using lk(2) by (simp add: MoveToFront_def)
  have dl: "distinct (lru c)" and dd: "distinct (map fst (data c))"
    using si by (simp_all add: store_inv_def)
  have 4: "map_of (data (Put k v now c)) k = (if lru c = [e] then None else Some e)"
  proof (cases "lru c = [e]")
    case True
    then have "last ?l = e" by (simp add: MoveToFront_def)
    then show ?thesis using True lk(3) by (simp add: 2 delete_conv')
  next
    case False
    have "remove1 e (lru c) \<noteq> []"
    proof
      assume "remove1 e (lru c) = []"
      then have "set (lru c) - {e} = {}" using dl set_remove1_eq[of "lru c" e] by simp
      then have "set (lru c) = {e}" using lk(2) by blast
      then have "lru c = [e]" using dl by (rule distinct_set_single[rotated])
      then show False using False by simp
    qed
    then have la: "last ?l = last (remove1 e (lru c))" and "last (remove1 e (lru c)) \<in> set (remove1 e (lru c))"
      by (simp_all add: l)
    then have ne: "last ?l \<noteq> e" and inl: "last ?l \<in> set (lru c)" using dl by auto
    have "lru c \<noteq> []" using lk(2) by auto
    have b: "(key (heap c (last ?l)), last ?l) \<in> set (data c)"
      using si inl unfolding store_inv_def by force
    have "key (heap c (last ?l)) \<noteq> k"
    proof
      assume "key (heap c (last ?l)) = k"
      then have "(k, last ?l) \<in> set (data c)" using b by simp
      then have "map_of (data c) k = Some (last ?l)" using dd by simp
      then show False using m ne by simp
    qed
    then show ?thesis using False m by (simp add: 2)
  qed
  show ?thesis using 1 2 3 4 by blast
qed

theorem C10_update_put_evicts_witness:
  "cache_inv (SetMaxKeyCount 2 (Put ''b'' (Some ''2'') 1 (Put ''a'' (Some ''1'') 0
      (New :: (string, string) Cache)))) \<and>
   map_of (data (SetMaxKeyCount 2 (Put ''b'' (Some ''2'') 1 (Put ''a'' (Some ''1'') 0
      (New :: (string, string) Cache))))) ''a'' = Some 0 \<and>
   maxKeyCount (SetMaxKeyCount 2 (Put ''b'' (Some ''2'') 1 (Put ''a'' (Some ''1'') 0
      (New :: (string, string) Cache)))) = 2 \<and>
   Len (SetMaxKeyCount 2 (Put ''b'' (Some ''2'') 1 (Put ''a'' (Some ''1'') 0
      (New :: (string, string) Cache)))) = 2 \<and>
   Len (Put ''a'' (Some ''9'') 2 (SetMaxKeyCount 2 (Put ''b'' (Some ''2'') 1
      (Put ''a'' (Some ''1'') 0 (New :: (string, string) Cache))))) = 1 \<and>
   map_of (data (Put ''a'' (Some ''9'') 2 (SetMaxKeyCount 2 (Put ''b'' (Some ''2'') 1
      (Put ''a'' (Some ''1'') 0 (New :: (string, string) Cache)))))) ''a'' = Some 0 \<and>
   map_of (data (Put ''a'' (Some ''9'') 2 (SetMaxKeyCount 2 (Put ''b'' (Some ''2'') 1
      (Put ''a'' (Some ''1'') 0 (New :: (string, string) Cache)))))) ''b'' = None"
proof -
  let ?c = "SetMaxKeyCount 2 (Put ''b'' (Some ''2'') 1 (Put ''a'' (Some ''1'') 0
      (New :: (string, string) Cache)))"
  have i: "cache_inv ?c" by (intro inv_Put inv_SetMaxKeyCount inv_New)
  have m: "map_of (data ?c) ''a'' = Some 0" by (simp add: cache_ops list_ops)
  have p: "0 < maxKeyCount ?c" and g: "maxKeyCount ?c \<le> int (Len ?c)"
    by (simp_all add: cache_ops list_ops)
  have v: "maxKeyCount ?c = 2" "Len ?c = 2" "lru ?c = [1, 0]"
    by (simp_all add: cache_ops list_ops)
  have b: "map_of (data (Put ''a'' (Some ''9'') 2 ?c)) ''b'' = None"
    by (simp add: cache_ops list_ops)
  note t = C10_update_put_evicts[OF i m p g, of "Some ''9''" 2]
  have "Suc (Len (Put ''a'' (Some ''9'') 2 ?c)) = Len ?c" using t by blast
  then have h1: "Len (Put ''a'' (Some ''9'') 2 ?c) = 1" using v(2) by simp
  have "map_of (data (Put ''a'' (Some ''9'') 2 ?c)) ''a'' = (if lru ?c = [0] then None else Some 0)"
    using t by blast
  then have h2: "map_of (data (Put ''a'' (Some ''9'') 2 ?c)) ''a'' = Some 0" using v(3) by simp
  show ?thesis using i m v(1) v(2) h1 h2 b by blast
qed

end
